theory Spec2Isabelle
  imports Complex_Main "HOL-Library.AList"
begin

section \<open>Data model of the public transaction engine\<close>

text \<open>
  The engine (\<^verbatim>\<open>pubTxManager\<close>, package \<^verbatim>\<open>publictxmgr\<close>) owns a pool of
  per-signer orchestrators, a pause table and a cache of the highest completed nonce per
  signing address. Instants and durations are integers in one clock unit
  (\<^verbatim>\<open>time.Time\<close>, \<^verbatim>\<open>time.Duration\<close>); nonces are unbounded integers
  (\<^verbatim>\<open>big.Int\<close>); signing addresses are strings.
\<close>

type_synonym instant = int
type_synonym duration = int

text \<open>
  Modelled from the spec: the status type of a public transaction
  (\<^verbatim>\<open>PubTxStatus\<close>, declared elsewhere in the repository). The source names
  \<^verbatim>\<open>PubTxStatusPending\<close>, \<^verbatim>\<open>PubTxStatusSucceeded\<close> and \<^verbatim>\<open>PubTxStatusFailed\<close>;
  the data model lists the statuses Pending, Submitted, Succeeded, Failed, Suspended.
\<close>

datatype PubTxStatus =
    PubTxStatusPending
  | PubTxStatusSubmitted
  | PubTxStatusSucceeded
  | PubTxStatusFailed
  | PubTxStatusSuspended

text \<open>
  Modelled from the spec: \<^verbatim>\<open>ptxapi.PublicTx\<close> (declared elsewhere in the repository), with
  the fields the engine reads (\<^verbatim>\<open>ID\<close>, \<^verbatim>\<open>From\<close>, \<^verbatim>\<open>To\<close>, \<^verbatim>\<open>Nonce\<close>,
  \<^verbatim>\<open>Status\<close>, \<^verbatim>\<open>Value\<close>) and the creation sequence the store sorts by.
\<close>

record PublicTx =
  ID :: string
  From :: string
  To :: string
  Nonce :: int
  Status :: PubTxStatus
  Value :: int
  Sequence :: nat

text \<open>\<^verbatim>\<open>big.Int.Cmp\<close>: \<open>-1\<close>, \<open>0\<close> or \<open>1\<close>.\<close>

definition Cmp :: "int \<Rightarrow> int \<Rightarrow> int" where
  "Cmp x y = (if x < y then - 1 else if x = y then 0 else 1)"

text \<open>
  The two-valued read of a Go map, \<^verbatim>\<open>v, exists := m[k]\<close>: a missing key reads the zero
  value and \<^verbatim>\<open>false\<close>.
\<close>

definition mapRead :: "(string \<rightharpoonup> int) \<Rightarrow> string \<Rightarrow> int \<times> bool" where
  "mapRead m k = (case m k of None \<Rightarrow> (0, False) | Some v \<Rightarrow> (v, True))"

section \<open>The completed-nonce cache\<close>

text \<open>
  \<^verbatim>\<open>updateCompletedTxNonce\<close> runs under \<^verbatim>\<open>completedTxNoncePerAddressMutex\<close>, so it is
  one atomic step on the cache \<^verbatim>\<open>completedTxNoncePerAddress\<close>. It returns the flag
  \<^verbatim>\<open>updated\<close> and the cache after the call.
\<close>

definition updateCompletedTxNonce ::
  "PublicTx \<Rightarrow> (string \<rightharpoonup> int) \<Rightarrow> bool \<times> (string \<rightharpoonup> int)" where
  "updateCompletedTxNonce tx completedTxNoncePerAddress =
     (if Status tx \<noteq> PubTxStatusSucceeded \<and> Status tx \<noteq> PubTxStatusFailed
      then (False, completedTxNoncePerAddress)
      else
        let (currentNonce, exists) = mapRead completedTxNoncePerAddress (From tx)
        in if \<not> exists \<or> Cmp currentNonce (Nonce tx) = - 1
           then (True, completedTxNoncePerAddress(From tx \<mapsto> Nonce tx))
           else (False, completedTxNoncePerAddress))"

text \<open>
  The store query record \<^verbatim>\<open>components.PubTransactionQueries\<close> (declared elsewhere in
  the repository), with the fields that \<^verbatim>\<open>poll\<close> and \<^verbatim>\<open>CheckTransactionCompleted\<close>
  set. Its \<^verbatim>\<open>From\<close> field is named \<open>From_query\<close> here, since \<open>From\<close> is the
  transaction's field. The fields \<^verbatim>\<open>To\<close> and \<^verbatim>\<open>HasTxValue\<close> are set only by
  \<^verbatim>\<open>GetPendingFuelingTransaction\<close>.
\<close>

record PubTransactionQueries =
  InStatus :: "PubTxStatus list"
  Sort :: "string option"
  Limit :: "int option"
  NotFrom :: "string list"
  From_query :: "string option"

datatype error = DBError string | ContextCancelled

text \<open>
  The transaction store as the engine sees it at one call: the database is either
  failing (every query returns an error) or holds a list of rows.
\<close>

datatype txStore = StoreFailing string | StoreRows "PublicTx list"

text \<open>
  Modelled from the spec: \<^verbatim>\<open>txStore.ListTransactions\<close> (the store's implementation is
  elsewhere in the repository). It returns the rows matching the filter (status, signing
  address inclusion and exclusion set), sorted by ascending creation sequence by default
  and by descending nonce for the sort key \<^verbatim>\<open>-nonce\<close>, cut at the limit.
\<close>

definition matchesQuery :: "PubTransactionQueries \<Rightarrow> PublicTx \<Rightarrow> bool" where
  "matchesQuery tf tx \<longleftrightarrow>
     (InStatus tf = [] \<or> Status tx \<in> set (InStatus tf))
     \<and> (case From_query tf of None \<Rightarrow> True | Some a \<Rightarrow> From tx = a)
     \<and> From tx \<notin> set (NotFrom tf)"

definition sortRows :: "string option \<Rightarrow> PublicTx list \<Rightarrow> PublicTx list" where
  "sortRows s rows =
     (if s = Some ''-nonce'' then rev (sort_key Nonce rows) else sort_key Sequence rows)"

definition limitRows :: "int option \<Rightarrow> PublicTx list \<Rightarrow> PublicTx list" where
  "limitRows l rows = (case l of None \<Rightarrow> rows | Some n \<Rightarrow> take (nat n) rows)"

definition ListTransactions :: "txStore \<Rightarrow> PubTransactionQueries \<Rightarrow> error + PublicTx list" where
  "ListTransactions st tf =
     (case st of
        StoreFailing e \<Rightarrow> Inl (DBError e)
      | StoreRows rows \<Rightarrow>
          Inr (limitRows (Limit tf) (sortRows (Sort tf) (filter (matchesQuery tf) rows))))"

text \<open>
  \<^verbatim>\<open>CheckTransactionCompleted\<close> reads the cache without the mutex and, on a miss, asks
  the store for the highest terminal nonce of the signer. It returns the flag
  \<^verbatim>\<open>completed\<close>, the cache after the call and the store queries it issued.
\<close>

definition CheckTransactionCompleted ::
  "txStore \<Rightarrow> PublicTx \<Rightarrow> (string \<rightharpoonup> int)
     \<Rightarrow> bool \<times> (string \<rightharpoonup> int) \<times> PubTransactionQueries list" where
  "CheckTransactionCompleted store tx completedTxNoncePerAddress =
     (let (completedTxNonce, exists) = mapRead completedTxNoncePerAddress (From tx)
      in if \<not> exists then
           let tf = \<lparr>InStatus = [PubTxStatusSucceeded, PubTxStatusFailed],
                     Sort = Some ''-nonce'',
                     Limit = Some 1,
                     NotFrom = [],
                     From_query = Some (From tx)\<rparr>
           in case ListTransactions store tf of
                Inl err \<Rightarrow> (False, completedTxNoncePerAddress, [tf])
              | Inr [] \<Rightarrow> (False, completedTxNoncePerAddress, [tf])
              | Inr (tx0 # _) \<Rightarrow>
                  (0 \<le> Cmp (Nonce tx0) (Nonce tx),
                   snd (updateCompletedTxNonce tx0 completedTxNoncePerAddress),
                   [tf])
         else (0 \<le> Cmp completedTxNonce (Nonce tx), completedTxNoncePerAddress, []))"

text \<open>
  The writers of the cache are \<^verbatim>\<open>updateCompletedTxNonce\<close> and, through it,
  \<^verbatim>\<open>CheckTransactionCompleted\<close>; a history of the cache is a list of such calls.
\<close>

datatype cacheOp = OpUpdate PublicTx | OpCheck txStore PublicTx

fun applyOp :: "cacheOp \<Rightarrow> (string \<rightharpoonup> int) \<Rightarrow> (string \<rightharpoonup> int)" where
  "applyOp (OpUpdate tx) c = snd (updateCompletedTxNonce tx c)"
| "applyOp (OpCheck store tx) c = fst (snd (CheckTransactionCompleted store tx c))"

fun applyOps :: "cacheOp list \<Rightarrow> (string \<rightharpoonup> int) \<Rightarrow> (string \<rightharpoonup> int)" where
  "applyOps [] c = c"
| "applyOps (x # xs) c = applyOps xs (applyOp x c)"

text \<open>
  The spec's words for what the miss path asks the store: the highest terminal
  (Succeeded or Failed) nonce of a signing address, if the store answers and holds such
  a row. It is compared below with what \<^verbatim>\<open>CheckTransactionCompleted\<close> computes through
  \<^verbatim>\<open>ListTransactions\<close>.
\<close>

definition terminalRowsOf :: "PublicTx list \<Rightarrow> string \<Rightarrow> PublicTx list" where
  "terminalRowsOf rows a =
     filter (\<lambda>t. From t = a \<and> (Status t = PubTxStatusSucceeded \<or> Status t = PubTxStatusFailed))
       rows"

definition highestTerminalNonce :: "txStore \<Rightarrow> string \<Rightarrow> int option" where
  "highestTerminalNonce st a =
     (case st of
        StoreFailing e \<Rightarrow> None
      | StoreRows rows \<Rightarrow>
          (if terminalRowsOf rows a = [] then None
           else Some (Max (set (map Nonce (terminalRowsOf rows a))))))"

section \<open>The default configuration\<close>

text \<open>
  The configuration holds durations as strings (\<^verbatim>\<open>"5s"\<close>, \<^verbatim>\<open>"250ms"\<close>) and every
  option as a pointer, \<open>None\<close> when unset. \<open>retry_Config\<close> and \<open>cache_Config\<close> are
  \<^verbatim>\<open>retry.Config\<close> and \<^verbatim>\<open>cache.Config\<close> (declared elsewhere in the repository), with the
  fields the default configuration sets.
\<close>

definition defaultTransactionEngineMaxInFlightOrchestrators :: int where
  "defaultTransactionEngineMaxInFlightOrchestrators = 50"

definition defaultTransactionEngineInterval :: string where
  "defaultTransactionEngineInterval = ''5s''"

definition defaultTransactionEngineMaxStale :: string where
  "defaultTransactionEngineMaxStale = ''1m''"

definition defaultTransactionEngineMaxIdle :: string where
  "defaultTransactionEngineMaxIdle = ''10s''"

definition defaultMaxOverloadProcessTime :: string where
  "defaultMaxOverloadProcessTime = ''10m''"

definition defaultTransactionEngineRetryInitDelay :: string where
  "defaultTransactionEngineRetryInitDelay = ''250ms''"

definition defaultTransactionEngineRetryMaxDelay :: string where
  "defaultTransactionEngineRetryMaxDelay = ''30s''"

definition defaultTransactionEngineRetryFactor :: real where
  "defaultTransactionEngineRetryFactor = 2.0"

record retry_Config =
  InitialDelay :: "string option"
  MaxDelay :: "string option"
  Factor :: "real option"

record cache_Config =
  Capacity :: "int option"

record TransactionEngineConfig =
  MaxInFlightOrchestrators :: "int option"
  Interval :: "string option"
  MaxStaleTime :: "string option"
  MaxIdleTime :: "string option"
  MaxOverloadProcessTime :: "string option"
  TransactionCache :: cache_Config
  Retry :: retry_Config

text \<open>
  \<^verbatim>\<open>DefaultTransactionEngineConfig\<close>, field by field as the source's literal sets it. The
  literal writes \<^verbatim>\<open>MaxIdleTim\<close> for the field \<^verbatim>\<open>MaxIdleTime\<close>, and it has no entry for
  \<^verbatim>\<open>MaxOverloadProcessTime\<close>, which therefore stays nil.
\<close>

definition DefaultTransactionEngineConfig :: TransactionEngineConfig where
  "DefaultTransactionEngineConfig =
     \<lparr>MaxInFlightOrchestrators = Some 50,
      Interval = Some ''5s'',
      MaxStaleTime = Some ''1m'',
      MaxIdleTime = Some ''10s'',
      MaxOverloadProcessTime = None,
      TransactionCache = \<lparr>Capacity = Some 1000\<rparr>,
      Retry = \<lparr>InitialDelay = Some ''250ms'', MaxDelay = Some ''30s'', Factor = Some 2.0\<rparr>\<rparr>"

text \<open>
  Go's \<^verbatim>\<open>time.ParseDuration\<close> on the strings used here: an unsigned decimal integer
  followed by one of the units \<^verbatim>\<open>ms\<close>, \<^verbatim>\<open>s\<close>, \<^verbatim>\<open>m\<close>, \<^verbatim>\<open>h\<close>; the result is in
  milliseconds, \<open>None\<close> for any other string.
\<close>

definition digitValue :: "char \<Rightarrow> nat option" where
  "digitValue c = map_of (zip ''0123456789'' [0, 1, 2, 3, 4, 5, 6, 7, 8, 9]) c"

fun parseDigits :: "string \<Rightarrow> nat \<Rightarrow> nat \<times> string" where
  "parseDigits [] acc = (acc, [])"
| "parseDigits (c # cs) acc =
     (case digitValue c of
        Some d \<Rightarrow> parseDigits cs (10 * acc + d)
      | None \<Rightarrow> (acc, c # cs))"

definition unitMillis :: "string \<Rightarrow> nat option" where
  "unitMillis u =
     (if u = ''ms'' then Some 1
      else if u = ''s'' then Some 1000
      else if u = ''m'' then Some 60000
      else if u = ''h'' then Some 3600000
      else None)"

definition parseDuration :: "string \<Rightarrow> nat option" where
  "parseDuration s =
     (case s of
        [] \<Rightarrow> None
      | c # cs \<Rightarrow>
          (if digitValue c = None then None
           else let (n, u) = parseDigits s 0 in map_option (\<lambda>k. n * k) (unitMillis u)))"

section \<open>The orchestrator pool and the engine's poll\<close>

text \<open>
  Modelled from the spec: the orchestrator's states (\<^verbatim>\<open>OrchestratorState\<close> and
  \<^verbatim>\<open>AllOrchestratorStates\<close> are declared elsewhere in the repository). The source names
  Stale, Idle, Paused and Stopped; the data model lists Stale, Idle, Running, Paused,
  Stopped.
\<close>

datatype OrchestratorState =
    OrchestratorStateStale
  | OrchestratorStateIdle
  | OrchestratorStateRunning
  | OrchestratorStatePaused
  | OrchestratorStateStopped

text \<open>
  Modelled from the spec: the orchestrator object (its type and methods are elsewhere in
  the repository), with the fields \<^verbatim>\<open>poll\<close> reads and three flags for the calls
  \<^verbatim>\<open>poll\<close> makes on it. \<^verbatim>\<open>Stop()\<close> is asynchronous and idempotent: it requests
  termination, and the state update is observed by the engine only on a later poll; so
  it sets \<open>stopRequested\<close> and leaves \<open>state\<close> alone. \<^verbatim>\<open>MarkInFlightTxStale()\<close> and
  \<^verbatim>\<open>Start()\<close> likewise only leave a mark. A new orchestrator is born in state Stale.
\<close>

record orchestrator =
  signingAddress :: string
  state :: OrchestratorState
  stateEntryTime :: instant
  orchestratorBirthTime :: instant
  stopRequested :: bool
  inFlightTxStale :: bool
  started :: bool

definition Stop :: "orchestrator \<Rightarrow> orchestrator" where
  "Stop oc = oc\<lparr>stopRequested := True\<rparr>"

definition MarkInFlightTxStale :: "orchestrator \<Rightarrow> orchestrator" where
  "MarkInFlightTxStale oc = oc\<lparr>inFlightTxStale := True\<rparr>"

definition Start :: "orchestrator \<Rightarrow> orchestrator" where
  "Start oc = oc\<lparr>started := True\<rparr>"

definition NewOrchestrator :: "instant \<Rightarrow> string \<Rightarrow> orchestrator" where
  "NewOrchestrator now a =
     \<lparr>signingAddress = a, state = OrchestratorStateStale, stateEntryTime = now,
      orchestratorBirthTime = now, stopRequested = False, inFlightTxStale = False,
      started = False\<rparr>"

text \<open>
  Modelled from the spec: the retry helper \<^verbatim>\<open>ble.retry\<close> (package \<^verbatim>\<open>retry\<close>, elsewhere
  in the repository). Delays are in milliseconds. A failed attempt is followed by a wait
  of the initial delay times the factor to the number of earlier failures, capped at the
  maximum delay; \<^verbatim>\<open>Do\<close> calls the function with attempt numbers from 1, returns its
  result when it succeeds or does not ask for a retry, and otherwise waits and tries
  again, indefinitely, until the context is cancelled during a wait. The predicate
  \<open>ctxDone\<close> says, for each attempt number, whether the cancellation arrives during the
  wait after that attempt. \<open>retryDo\<close> returns the result and the number of attempts
  made; it is \<open>None\<close> when the loop never ends. \<open>NewRetryIndefinite\<close> builds the
  helper from a retry configuration, \<open>None\<close> when an option is unset or a duration does
  not parse.
\<close>

record Retry =
  initialDelay :: real
  maxDelay :: real
  factor :: real

definition retryDelay :: "Retry \<Rightarrow> nat \<Rightarrow> real" where
  "retryDelay r failureCount =
     min (initialDelay r * factor r ^ (failureCount - 1)) (maxDelay r)"

definition NewRetryIndefinite :: "retry_Config \<Rightarrow> Retry option" where
  "NewRetryIndefinite conf =
     (case (Option.bind (InitialDelay conf) parseDuration,
            Option.bind (MaxDelay conf) parseDuration,
            Factor conf) of
        (Some i, Some m, Some f) \<Rightarrow>
          Some \<lparr>initialDelay = real i, maxDelay = real m, factor = f\<rparr>
      | _ \<Rightarrow> None)"

partial_function (option) retryDo ::
  "(nat \<Rightarrow> bool) \<Rightarrow> (nat \<Rightarrow> bool \<times> (error + 'a)) \<Rightarrow> nat \<Rightarrow> ((error + 'a) \<times> nat) option" where
  "retryDo ctxDone f attempt =
     (case f attempt of
        (retry, Inr v) \<Rightarrow> Some (Inr v, attempt)
      | (retry, Inl err) \<Rightarrow>
          if \<not> retry then Some (Inl err, attempt)
          else if ctxDone attempt then Some (Inl ContextCancelled, attempt)
          else retryDo ctxDone f (Suc attempt))"

declare retryDo.simps [code]

text \<open>
  The engine \<^verbatim>\<open>pubTxManager\<close>: the fields \<^verbatim>\<open>poll\<close> reads and writes. The two Go
  maps are association lists; the order of a list is the order in which a \<^verbatim>\<open>range\<close>
  loop visits the map, \<^verbatim>\<open>m[k] = v\<close> is \<open>AList.update k v m\<close> and \<^verbatim>\<open>len(m)\<close> is the
  length of the list.
\<close>

record pubTxManager =
  InFlightOrchestrators :: "(string \<times> orchestrator) list"
  SigningAddressesPausedUntil :: "(string \<times> instant) list"
  maxInFlightOrchestrators :: int
  maxOrchestratorStale :: duration
  maxOrchestratorIdle :: duration
  maxOverloadProcessTime :: duration
  retry :: Retry

text \<open>
  What surrounds one call of \<^verbatim>\<open>poll\<close>: the clock reading (the tick is taken at one
  instant, every \<^verbatim>\<open>time.Now()\<close> of the call reads \<open>timeNow\<close>), the state of the store at
  each attempt of the query, and the cancellation of the context.
\<close>

record pollEnv =
  timeNow :: instant
  txStoreAt :: "nat \<Rightarrow> txStore"
  ctxDoneAfter :: "nat \<Rightarrow> bool"

text \<open>
  What one call of \<^verbatim>\<open>poll\<close> leaves: the two return values, the engine after the call,
  the store queries issued (one per attempt), the delays of the waits between attempts,
  and the arguments of \<^verbatim>\<open>RecordInFlightOrchestratorPoolMetrics\<close> (the state counts
  and the free slots) when the call reaches it.
\<close>

record pollResult =
  polled :: int
  total_ret :: int
  engine :: pubTxManager
  queries :: "PubTransactionQueries list"
  waits :: "real list"
  metrics :: "((OrchestratorState \<Rightarrow> int) \<times> int) option"

text \<open>
  The reap loop: it runs through the old map, asks the orchestrators that are Stale or
  Idle for too long to stop, and copies those that are not Stopped into the new map,
  counting their states and collecting their signing addresses.
\<close>

fun reapLoop ::
  "pubTxManager \<Rightarrow> instant \<Rightarrow> (string \<times> orchestrator) list
     \<Rightarrow> (string \<times> orchestrator) list \<times> (OrchestratorState \<Rightarrow> int) \<times> string list
     \<Rightarrow> (string \<times> orchestrator) list \<times> (OrchestratorState \<Rightarrow> int) \<times> string list" where
  "reapLoop ble now [] acc = acc"
| "reapLoop ble now ((address, oc) # rest) (inFlight, stateCounts, addresses) =
     (let oc' =
        (if (state oc = OrchestratorStateStale \<and> now - stateEntryTime oc > maxOrchestratorStale ble)
            \<or> (state oc = OrchestratorStateIdle \<and> now - stateEntryTime oc > maxOrchestratorIdle ble)
         then Stop oc else oc)
      in if state oc' \<noteq> OrchestratorStateStopped
         then reapLoop ble now rest
                (AList.update address (MarkInFlightTxStale oc') inFlight,
                 stateCounts(state oc' := stateCounts (state oc') + 1),
                 addresses @ [address])
         else reapLoop ble now rest (inFlight, stateCounts, addresses))"

text \<open>The walk through the pause table, when there are free slots.\<close>

fun pausedLoop ::
  "instant \<Rightarrow> (string \<times> instant) list
     \<Rightarrow> (OrchestratorState \<Rightarrow> int) \<times> string list
     \<Rightarrow> (OrchestratorState \<Rightarrow> int) \<times> string list" where
  "pausedLoop now [] acc = acc"
| "pausedLoop now ((address, pausedUntil) # rest) (stateCounts, addresses) =
     (if now < pausedUntil
      then pausedLoop now rest
             (stateCounts(OrchestratorStatePaused := stateCounts OrchestratorStatePaused + 1),
              addresses @ [address])
      else pausedLoop now rest (stateCounts, addresses))"

text \<open>The loop over the rows the store returned.\<close>

fun createLoop ::
  "instant \<Rightarrow> PublicTx list
     \<Rightarrow> (string \<times> orchestrator) list \<times> (OrchestratorState \<Rightarrow> int)
     \<Rightarrow> (string \<times> orchestrator) list \<times> (OrchestratorState \<Rightarrow> int)" where
  "createLoop now [] acc = acc"
| "createLoop now (mtx # rest) (inFlight, stateCounts) =
     (if map_of inFlight (From mtx) = None
      then let oc = NewOrchestrator now (From mtx)
           in createLoop now rest
                (AList.update (From mtx) (Start oc) inFlight,
                 stateCounts(state oc := stateCounts (state oc) + 1))
      else createLoop now rest (inFlight, stateCounts))"

text \<open>
  The fairness loop, when the pool is full: it runs through the surviving orchestrators;
  the objects it stops are those the new map points to.
\<close>

fun evictLoop ::
  "pubTxManager \<Rightarrow> instant \<Rightarrow> (string \<times> orchestrator) list
     \<Rightarrow> (string \<times> orchestrator) list \<times> (string \<times> instant) list
     \<Rightarrow> (string \<times> orchestrator) list \<times> (string \<times> instant) list" where
  "evictLoop ble now [] acc = acc"
| "evictLoop ble now ((address, oc) # rest) (inFlight, paused) =
     (if now - orchestratorBirthTime oc > maxOverloadProcessTime ble
      then evictLoop ble now rest
             (AList.update address (Stop oc) inFlight,
              AList.update address (now + maxOverloadProcessTime ble) paused)
      else evictLoop ble now rest (inFlight, paused))"

text \<open>The survivors of the reap loop: the new map before the capacity phase.\<close>

definition survivors :: "pubTxManager \<Rightarrow> instant \<Rightarrow> (string \<times> orchestrator) list" where
  "survivors ble t = fst (reapLoop ble t (InFlightOrchestrators ble) ([], (\<lambda>s. 0), []))"

text \<open>
  \<^verbatim>\<open>poll\<close>, under \<^verbatim>\<open>InFlightOrchestratorMux\<close>. It is \<open>None\<close> when the retry of the store
  query never ends.
\<close>

definition poll :: "pubTxManager \<Rightarrow> pollEnv \<Rightarrow> pollResult option" where
  "poll ble env =
     (let oldInFlight = InFlightOrchestrators ble;
          (inFlight, stateCounts, InFlightSigningAddresses) =
             reapLoop ble (timeNow env) oldInFlight ([], (\<lambda>s. 0), []);
          totalBeforePoll = int (length inFlight);
          spaces = maxInFlightOrchestrators ble - totalBeforePoll
      in if spaces > 0 then
           let (stateCounts', InFlightSigningAddresses') =
                  pausedLoop (timeNow env) (SigningAddressesPausedUntil ble)
                    (stateCounts, InFlightSigningAddresses);
               tf = \<lparr>InStatus = [PubTxStatusPending],
                     Sort = Some ''sequence'',
                     Limit = Some spaces,
                     NotFrom = (if length InFlightSigningAddresses' > 0
                                then InFlightSigningAddresses' else []),
                     From_query = None\<rparr>
           in case retryDo (ctxDoneAfter env)
                     (\<lambda>attempt. (True, ListTransactions (txStoreAt env attempt) tf)) 1 of
                None \<Rightarrow> None
              | Some (Inl err, n) \<Rightarrow>
                  Some \<lparr>polled = - 1,
                        total_ret = int (length inFlight),
                        engine = ble\<lparr>InFlightOrchestrators := inFlight\<rparr>,
                        queries = replicate n tf,
                        waits = map (retryDelay (retry ble)) [1..<Suc n],
                        metrics = None\<rparr>
              | Some (Inr additionalTxFromNonInFlightSigners, n) \<Rightarrow>
                  let (inFlight', stateCounts'') =
                         createLoop (timeNow env) additionalTxFromNonInFlightSigners
                           (inFlight, stateCounts');
                      total' = int (length inFlight')
                  in Some \<lparr>polled = (if total' > 0 then total' - totalBeforePoll else 0),
                           total_ret = total',
                           engine = ble\<lparr>InFlightOrchestrators := inFlight'\<rparr>,
                           queries = replicate n tf,
                           waits = map (retryDelay (retry ble)) [1..<n],
                           metrics = Some (stateCounts'',
                             maxInFlightOrchestrators ble - int (length inFlight'))\<rparr>
         else
           let (inFlight', paused') =
                  evictLoop ble (timeNow env) inFlight (inFlight, SigningAddressesPausedUntil ble)
           in Some \<lparr>polled = 0,
                    total_ret = 0,
                    engine = ble\<lparr>InFlightOrchestrators := inFlight',
                                 SigningAddressesPausedUntil := paused'\<rparr>,
                    queries = [],
                    waits = [],
                    metrics = Some (stateCounts,
                      maxInFlightOrchestrators ble - int (length inFlight'))\<rparr>)"

text \<open>
  The spec's words for the capacity phase, to compare \<^verbatim>\<open>poll\<close> with: the state counts
  and the signing addresses the reap loop leaves, the entries of the pause table whose
  instant is still in the future, and the query for pending work of signers that are
  neither in flight nor paused, limited to the free slots, in ascending creation
  sequence.
\<close>

definition reapCounts :: "pubTxManager \<Rightarrow> instant \<Rightarrow> OrchestratorState \<Rightarrow> int" where
  "reapCounts ble t = fst (snd (reapLoop ble t (InFlightOrchestrators ble) ([], (\<lambda>s. 0), [])))"

definition reapAddresses :: "pubTxManager \<Rightarrow> instant \<Rightarrow> string list" where
  "reapAddresses ble t = snd (snd (reapLoop ble t (InFlightOrchestrators ble) ([], (\<lambda>s. 0), [])))"

definition stillPaused :: "pubTxManager \<Rightarrow> instant \<Rightarrow> (string \<times> instant) list" where
  "stillPaused ble t = filter (\<lambda>(a, u). t < u) (SigningAddressesPausedUntil ble)"

definition pollQuery :: "pubTxManager \<Rightarrow> instant \<Rightarrow> PubTransactionQueries" where
  "pollQuery ble t =
     \<lparr>InStatus = [PubTxStatusPending],
      Sort = Some ''sequence'',
      Limit = Some (maxInFlightOrchestrators ble - int (length (survivors ble t))),
      NotFrom = reapAddresses ble t @ map fst (stillPaused ble t),
      From_query = None\<rparr>"

definition pausedCounts :: "pubTxManager \<Rightarrow> instant \<Rightarrow> OrchestratorState \<Rightarrow> int" where
  "pausedCounts ble t =
     (reapCounts ble t)(OrchestratorStatePaused :=
        reapCounts ble t OrchestratorStatePaused + int (length (stillPaused ble t)))"

definition pollCreated ::
  "pubTxManager \<Rightarrow> instant \<Rightarrow> PublicTx list
     \<Rightarrow> (string \<times> orchestrator) list \<times> (OrchestratorState \<Rightarrow> int)" where
  "pollCreated ble t rows = createLoop t rows (survivors ble t, pausedCounts ble t)"

definition pollEvicted ::
  "pubTxManager \<Rightarrow> instant \<Rightarrow> (string \<times> orchestrator) list \<times> (string \<times> instant) list" where
  "pollEvicted ble t =
     evictLoop ble t (survivors ble t) (survivors ble t, SigningAddressesPausedUntil ble)"

text \<open>
  The outcome of a terminating retry loop: the attempt it ended at, what the function
  returned there, and that every earlier attempt failed with no cancellation after it.
\<close>

definition retryOutcome ::
  "(nat \<Rightarrow> bool) \<Rightarrow> (nat \<Rightarrow> bool \<times> (error + 'a)) \<Rightarrow> nat \<Rightarrow> (error + 'a) \<times> nat \<Rightarrow> bool" where
  "retryOutcome d f attempt y \<longleftrightarrow>
     attempt \<le> snd y
     \<and> (case fst y of
          Inr v \<Rightarrow> snd (f (snd y)) = Inr v
        | Inl e \<Rightarrow> (\<exists>e'. snd (f (snd y)) = Inl e')
                   \<and> (fst (f (snd y)) \<longrightarrow> e = ContextCancelled \<and> d (snd y)))
     \<and> (\<forall>k. attempt \<le> k \<and> k < snd y \<longrightarrow> (\<exists>e'. snd (f k) = Inl e') \<and> \<not> d k)"

text \<open>Sample transactions for the concrete instances below.\<close>

definition sampleTx :: "string \<Rightarrow> int \<Rightarrow> PubTxStatus \<Rightarrow> nat \<Rightarrow> PublicTx" where
  "sampleTx a n st sq =
     \<lparr>ID = ''tx'', From = a, To = ''0xD'', Nonce = n, Status = st, Value = 0, Sequence = sq\<rparr>"

definition sampleOc :: "string \<Rightarrow> OrchestratorState \<Rightarrow> instant \<Rightarrow> instant \<Rightarrow> orchestrator" where
  "sampleOc a st entered born =
     \<lparr>signingAddress = a, state = st, stateEntryTime = entered,
      orchestratorBirthTime = born, stopRequested = False, inFlightTxStale = False,
      started = True\<rparr>"

text \<open>
  A sample engine at clock reading 1000: two running orchestrators (\<open>0xA\<close> born at 0,
  \<open>0xB\<close> born at 500) and a stopped one, a pause table with one entry in the future and
  one in the past, and the pool size as parameter.
\<close>

definition sampleEngine :: "int \<Rightarrow> pubTxManager" where
  "sampleEngine m =
     \<lparr>InFlightOrchestrators =
        [(''0xA'', sampleOc ''0xA'' OrchestratorStateRunning 0 0),
         (''0xB'', sampleOc ''0xB'' OrchestratorStateRunning 500 500),
         (''0xS'', sampleOc ''0xS'' OrchestratorStateStopped 600 100)],
      SigningAddressesPausedUntil = [(''0xC'', 5000), (''0xD'', 900)],
      maxInFlightOrchestrators = m,
      maxOrchestratorStale = 60000,
      maxOrchestratorIdle = 10000,
      maxOverloadProcessTime = 600,
      retry = \<lparr>initialDelay = 250, maxDelay = 30000, factor = 2\<rparr>\<rparr>"

text \<open>
  A sample environment: the store fails at the first \<open>failures\<close> attempts and then
  answers with five pending rows; with \<open>cancel\<close> the context is cancelled during the
  wait after attempt \<open>failures\<close>.
\<close>

definition sampleEnv :: "nat \<Rightarrow> bool \<Rightarrow> pollEnv" where
  "sampleEnv failures cancel =
     \<lparr>timeNow = 1000,
      txStoreAt = (\<lambda>attempt. if attempt \<le> failures then StoreFailing ''db down'' else
         StoreRows [sampleTx ''0xC'' 1 PubTxStatusPending 1,
           sampleTx ''0xD'' 1 PubTxStatusPending 2,
           sampleTx ''0xD'' 2 PubTxStatusPending 3,
           sampleTx ''0xE'' 1 PubTxStatusPending 4,
           sampleTx ''0xA'' 9 PubTxStatusPending 5]),
      ctxDoneAfter = (\<lambda>attempt. cancel \<and> failures \<le> attempt)\<rparr>"

definition sampleStore :: txStore where
  "sampleStore = StoreRows
     [sampleTx ''0xA'' 5 PubTxStatusSucceeded 1,
      sampleTx ''0xA'' 7 PubTxStatusFailed 2,
      sampleTx ''0xA'' 9 PubTxStatusPending 3,
      sampleTx ''0xB'' 20 PubTxStatusSucceeded 4,
      sampleTx ''0xC'' 1 PubTxStatusPending 5]"

section \<open>The engine loop and its wake signal\<close>

text \<open>
  The engine loop as seen through its channels. \<^verbatim>\<open>InFlightOrchestratorStale\<close> is a
  channel with a buffer of one; a list holds what is queued in it. The ticker's channel
  \<^verbatim>\<open>ticker.C\<close> also has a buffer of one. \<open>pollCount\<close> counts the calls of \<^verbatim>\<open>poll\<close>
  the loop has made, and \<open>engineLoopDone\<close> says the loop has returned.
\<close>

record engineLoopState =
  InFlightOrchestratorStale :: "bool list"
  tickerC :: "unit list"
  ctxDone :: bool
  pollCount :: nat
  engineLoopDone :: bool

text \<open>
  \<^verbatim>\<open>MarkInFlightOrchestratorsStale\<close>: a select with one send case and a default. The send
  is taken when the buffer has room; otherwise the default returns at once.
\<close>

definition MarkInFlightOrchestratorsStale :: "engineLoopState \<Rightarrow> engineLoopState" where
  "MarkInFlightOrchestratorsStale s =
     (if length (InFlightOrchestratorStale s) < 1
      then s\<lparr>InFlightOrchestratorStale := InFlightOrchestratorStale s @ [True]\<rparr>
      else s)"

text \<open>The ticker fires: it sends on its channel and drops the tick when the buffer is full.\<close>

definition tickerFires :: "engineLoopState \<Rightarrow> engineLoopState" where
  "tickerFires s = (if length (tickerC s) < 1 then s\<lparr>tickerC := tickerC s @ [()]\<rparr> else s)"

text \<open>
  One iteration of the loop of \<^verbatim>\<open>engineLoop\<close>: the select takes one of its three cases,
  which must be ready (Go picks among the ready cases at random, so the case taken is a
  parameter); the result is \<open>None\<close> when that case is not ready or the loop has returned.
  After the ticker or the stale signal the loop calls \<^verbatim>\<open>poll\<close> once.
\<close>

datatype selectCase = CaseTicker | CaseStale | CaseDone

definition engineLoopIteration :: "selectCase \<Rightarrow> engineLoopState \<Rightarrow> engineLoopState option" where
  "engineLoopIteration c s =
     (if engineLoopDone s then None
      else case c of
        CaseTicker \<Rightarrow>
          (case tickerC s of
             [] \<Rightarrow> None
           | x # rest \<Rightarrow> Some (s\<lparr>tickerC := rest, pollCount := Suc (pollCount s)\<rparr>))
      | CaseStale \<Rightarrow>
          (case InFlightOrchestratorStale s of
             [] \<Rightarrow> None
           | x # rest \<Rightarrow>
               Some (s\<lparr>InFlightOrchestratorStale := rest, pollCount := Suc (pollCount s)\<rparr>))
      | CaseDone \<Rightarrow>
          (if ctxDone s then Some (s\<lparr>engineLoopDone := True\<rparr>) else None))"

text \<open>
  A schedule interleaves the loop's iterations with what other goroutines do to its
  channels: a call of \<^verbatim>\<open>MarkInFlightOrchestratorsStale\<close>, a tick, the cancellation of the
  context. Channel operations are atomic, so an interleaving of these events is a run of
  the program.
\<close>

datatype loopEvent = Call | Tick | Cancel | Loop selectCase

fun runEvents :: "loopEvent list \<Rightarrow> engineLoopState \<Rightarrow> engineLoopState option" where
  "runEvents [] s = Some s"
| "runEvents (Call # es) s = runEvents es (MarkInFlightOrchestratorsStale s)"
| "runEvents (Tick # es) s = runEvents es (tickerFires s)"
| "runEvents (Cancel # es) s = runEvents es (s\<lparr>ctxDone := True\<rparr>)"
| "runEvents (Loop c # es) s =
     (case engineLoopIteration c s of None \<Rightarrow> None | Some s' \<Rightarrow> runEvents es s')"

definition idleLoop :: engineLoopState where
  "idleLoop =
     \<lparr>InFlightOrchestratorStale = [], tickerC = [], ctxDone = False, pollCount = 0,
      engineLoopDone = False\<rparr>"

section \<open>Receipt delivery over JSON/RPC\<close>

text \<open>
  A receipt subscription of package \<^verbatim>\<open>txmgr\<close>. The subscription objects live in a heap
  keyed by \<^verbatim>\<open>ctrl.ID()\<close>, since \<^verbatim>\<open>DeliverReceiptBatch\<close> holds a pointer to one while
  \<^verbatim>\<open>HandleLifecycle\<close> reaches it through the map \<^verbatim>\<open>es.receiptSubs\<close>; \<open>receiptSubs\<close> is
  the set of keys of that map. \<open>acksNacks\<close> is a channel with a buffer of one,
  \<open>closedChan\<close> says that the channel \<^verbatim>\<open>closed\<close> has been closed, \<open>ctrlSent\<close> lists what
  \<^verbatim>\<open>ctrl.Send\<close> has sent (batch id and receipt ids), \<open>ctrlClosed\<close> that \<^verbatim>\<open>ctrl.Closed()\<close>
  was called, and \<open>rrc\<close> is \<open>None\<close> for a nil receiver and otherwise says whether
  \<^verbatim>\<open>rrc.Close()\<close> was called.
\<close>

datatype rpcAckNack = RpcAckNack (ack: bool)

record receiptListenerSubscription =
  rrc :: "bool option"
  ctrlSent :: "(nat \<times> string list) list"
  ctrlClosed :: bool
  acksNacks :: "rpcAckNack list"
  closedChan :: bool

record rpcEventStreams =
  subscriptions :: "string \<rightharpoonup> receiptListenerSubscription"
  receiptSubs :: "string set"

datatype rpcError =
    MsgTxMgrSubIDRequired
  | MsgTxMgrLifecycleMethodUnknown string
  | MsgTxMgrJSONRPCSubscriptionNack string
  | MsgTxMgrJSONRPCSubscriptionClosed string

datatype rpcResponse = RPCErrorResponse rpcError | RPCResult bool

record rpcRequest =
  Method :: string
  Params :: "string list"

definition getSubscription ::
  "rpcEventStreams \<Rightarrow> string \<Rightarrow> receiptListenerSubscription option" where
  "getSubscription es subID =
     (if subID \<in> receiptSubs es then subscriptions es subID else None)"

definition cleanupLocked ::
  "rpcEventStreams \<Rightarrow> string \<Rightarrow> receiptListenerSubscription \<Rightarrow> rpcEventStreams" where
  "cleanupLocked es subID sub =
     es\<lparr>receiptSubs := receiptSubs es - {subID},
        subscriptions := (subscriptions es)
          (subID \<mapsto> sub\<lparr>rrc := map_option (\<lambda>c. True) (rrc sub), closedChan := True\<rparr>)\<rparr>"

definition cleanupSubscription :: "rpcEventStreams \<Rightarrow> string \<Rightarrow> rpcEventStreams" where
  "cleanupSubscription es subID =
     (case getSubscription es subID of
        None \<Rightarrow> es
      | Some sub \<Rightarrow> cleanupLocked es subID sub)"

text \<open>
  \<^verbatim>\<open>HandleLifecycle\<close> returns the streams after the call and the reply, \<open>None\<close> for no
  reply. An ack or nack is sent to the subscription's channel without blocking: it is
  dropped when the buffer is full.
\<close>

definition HandleLifecycle ::
  "rpcEventStreams \<Rightarrow> rpcRequest \<Rightarrow> rpcEventStreams \<times> rpcResponse option" where
  "HandleLifecycle es req =
     (case Params req of
        [] \<Rightarrow> (es, Some (RPCErrorResponse MsgTxMgrSubIDRequired))
      | subID # ps \<Rightarrow>
          (let sub = getSubscription es subID
           in if Method req = ''ptx_ack'' \<or> Method req = ''ptx_nack'' then
                (case sub of
                   None \<Rightarrow> (es, None)
                 | Some s \<Rightarrow>
                     (if length (acksNacks s) < 1
                      then (es\<lparr>subscriptions := (subscriptions es)
                                (subID \<mapsto> s\<lparr>acksNacks :=
                                   acksNacks s @ [RpcAckNack (Method req = ''ptx_ack'')]\<rparr>)\<rparr>,
                            None)
                      else (es, None)))
              else if Method req = ''ptx_unsubscribe'' then
                (case sub of
                   None \<Rightarrow> (es, Some (RPCResult False))
                 | Some s \<Rightarrow>
                     (cleanupSubscription
                        (es\<lparr>subscriptions := (subscriptions es)
                              (subID \<mapsto> s\<lparr>ctrlClosed := True\<rparr>)\<rparr>) subID,
                      Some (RPCResult True)))
              else (es, Some (RPCErrorResponse (MsgTxMgrLifecycleMethodUnknown (Method req))))))"

text \<open>
  \<^verbatim>\<open>DeliverReceiptBatch\<close> in two steps: the send, and the select on the channels
  \<^verbatim>\<open>acksNacks\<close> and \<^verbatim>\<open>closed\<close>. \<open>deliverSelect\<close> is \<open>None\<close> while neither case is ready
  (the call blocks); with both ready Go picks at random, so \<open>pickAck\<close> says which case is
  taken. The result is the error returned (\<open>None\<close> for nil) and the streams after the
  call.
\<close>

definition deliverSend ::
  "rpcEventStreams \<Rightarrow> string \<Rightarrow> nat \<Rightarrow> string list \<Rightarrow> rpcEventStreams" where
  "deliverSend es subID batchID receipts =
     (case subscriptions es subID of
        None \<Rightarrow> es
      | Some s \<Rightarrow>
          es\<lparr>subscriptions := (subscriptions es)
                (subID \<mapsto> s\<lparr>ctrlSent := ctrlSent s @ [(batchID, receipts)]\<rparr>)\<rparr>)"

definition deliverSelect ::
  "bool \<Rightarrow> rpcEventStreams \<Rightarrow> string \<Rightarrow> (rpcError option \<times> rpcEventStreams) option" where
  "deliverSelect pickAck es subID =
     (case subscriptions es subID of
        None \<Rightarrow> None
      | Some s \<Rightarrow>
          (case acksNacks s of
             [] \<Rightarrow>
               (if closedChan s then Some (Some (MsgTxMgrJSONRPCSubscriptionClosed subID), es)
                else None)
           | ackNack # rest \<Rightarrow>
               (if closedChan s \<and> \<not> pickAck
                then Some (Some (MsgTxMgrJSONRPCSubscriptionClosed subID), es)
                else Some
                  (if \<not> ack ackNack then Some (MsgTxMgrJSONRPCSubscriptionNack subID) else None,
                   es\<lparr>subscriptions := (subscriptions es)(subID \<mapsto> s\<lparr>acksNacks := rest\<rparr>)\<rparr>))))"

text \<open>
  The wait of \<^verbatim>\<open>DeliverReceiptBatch\<close> against the lifecycle requests that other
  goroutines handle meanwhile: a blocked select is completed by the first request that
  makes one of its cases ready. The result is \<open>None\<close> when the requests run out with the
  call still blocked.
\<close>

fun deliverWait ::
  "bool \<Rightarrow> rpcRequest list \<Rightarrow> rpcEventStreams \<Rightarrow> string
     \<Rightarrow> (rpcError option \<times> rpcEventStreams) option" where
  "deliverWait pickAck [] es subID = deliverSelect pickAck es subID"
| "deliverWait pickAck (req # reqs) es subID =
     (case deliverSelect pickAck es subID of
        Some r \<Rightarrow> Some r
      | None \<Rightarrow> deliverWait pickAck reqs (fst (HandleLifecycle es req)) subID)"

definition DeliverReceiptBatch ::
  "bool \<Rightarrow> rpcRequest list \<Rightarrow> rpcEventStreams \<Rightarrow> string \<Rightarrow> nat \<Rightarrow> string list
     \<Rightarrow> (rpcError option \<times> rpcEventStreams) option" where
  "DeliverReceiptBatch pickAck reqs es subID batchID receipts =
     deliverWait pickAck reqs (deliverSend es subID batchID receipts) subID"

text \<open>A sample: one registered, open subscription with an empty ack channel.\<close>

definition sampleSub :: receiptListenerSubscription where
  "sampleSub =
     \<lparr>rrc = Some False, ctrlSent = [], ctrlClosed = False, acksNacks = [], closedChan = False\<rparr>"

definition sampleStreams :: rpcEventStreams where
  "sampleStreams = \<lparr>subscriptions = [''sub1'' \<mapsto> sampleSub], receiptSubs = {''sub1''}\<rparr>"

definition lifecycleRequest :: "string \<Rightarrow> string \<Rightarrow> rpcRequest" where
  "lifecycleRequest m subID = \<lparr>Method = m, Params = [subID]\<rparr>"

definition sampleStreamsSent :: rpcEventStreams where
  "sampleStreamsSent =
     \<lparr>subscriptions = [''sub1'' \<mapsto> sampleSub\<lparr>ctrlSent := [(7, [''r1''])]\<rparr>],
      receiptSubs = {''sub1''}\<rparr>"

section \<open>Properties of the completed-nonce cache\<close>

lemma Cmp_less: "Cmp x y = - 1 \<longleftrightarrow> x < y"
  by (simp add: Cmp_def)

lemma Cmp_ge: "0 \<le> Cmp x y \<longleftrightarrow> y \<le> x"
  by (simp add: Cmp_def)

lemma updateCompletedTxNonce_other:
  "a \<noteq> From tx \<Longrightarrow> snd (updateCompletedTxNonce tx c) a = c a"
  by (simp add: updateCompletedTxNonce_def mapRead_def Let_def split: option.splits)

lemma updateCompletedTxNonce_mono:
  "c a = Some v \<Longrightarrow> \<exists>v'. snd (updateCompletedTxNonce tx c) a = Some v' \<and> v \<le> v'"
  by (auto simp: updateCompletedTxNonce_def mapRead_def Let_def Cmp_less split: option.splits)

lemma CheckTransactionCompleted_cache:
  "fst (snd (CheckTransactionCompleted store tx c)) = c
   \<or> (\<exists>t0. fst (snd (CheckTransactionCompleted store tx c)) = snd (updateCompletedTxNonce t0 c))"
  by (auto simp: CheckTransactionCompleted_def mapRead_def Let_def split: option.splits sum.splits list.splits)

lemma applyOp_mono:
  "c a = Some v \<Longrightarrow> \<exists>v'. applyOp x c a = Some v' \<and> v \<le> v'"
proof (cases x)
  case (OpUpdate tx)
  assume "c a = Some v"
  then show ?thesis using OpUpdate by (simp add: updateCompletedTxNonce_mono)
next
  case (OpCheck store tx)
  assume h: "c a = Some v"
  from CheckTransactionCompleted_cache [of store tx c] show ?thesis
  proof
    assume "fst (snd (CheckTransactionCompleted store tx c)) = c"
    then show ?thesis using OpCheck h by simp
  next
    assume "\<exists>t0. fst (snd (CheckTransactionCompleted store tx c)) = snd (updateCompletedTxNonce t0 c)"
    then show ?thesis using OpCheck h by (auto simp: updateCompletedTxNonce_mono)
  qed
qed

lemma applyOps_mono:
  "c a = Some v \<Longrightarrow> \<exists>v'. applyOps ops c a = Some v' \<and> v \<le> v'"
proof (induction ops arbitrary: c v)
  case Nil
  then show ?case by simp
next
  case (Cons x xs)
  from applyOp_mono [of c a v x] Cons.prems obtain w where
    w: "applyOp x c a = Some w" "v \<le> w" by blast
  from Cons.IH [of "applyOp x c" w] w(1) obtain v' where "applyOps xs (applyOp x c) a = Some v'" "w \<le> v'"
    by blast
  then show ?case using w(2) by auto
qed

text \<open>
  Claim C10. \<^verbatim>\<open>updateCompletedTxNonce\<close> returns false and leaves the whole cache as it
  was when the transaction's status is neither Succeeded nor Failed, and also when the
  status is terminal and the cache holds an entry for \<^verbatim>\<open>tx.From\<close> that is at least
  \<^verbatim>\<open>tx.Nonce\<close>. It returns true exactly when the status is terminal and the entry
  for \<^verbatim>\<open>tx.From\<close> is missing or below \<^verbatim>\<open>tx.Nonce\<close>, and then the cache after the
  call is the old one with \<^verbatim>\<open>tx.From\<close> set to \<^verbatim>\<open>tx.Nonce\<close>. The entry of every
  other signing address is the same before and after the call.
\<close>

theorem updateCompletedTxNonce_frame:
  "(Status tx \<noteq> PubTxStatusSucceeded \<and> Status tx \<noteq> PubTxStatusFailed
      \<longrightarrow> updateCompletedTxNonce tx c = (False, c))
   \<and> ((\<exists>v. c (From tx) = Some v \<and> Nonce tx \<le> v)
      \<longrightarrow> updateCompletedTxNonce tx c = (False, c))
   \<and> (fst (updateCompletedTxNonce tx c)
      \<longleftrightarrow> (Status tx = PubTxStatusSucceeded \<or> Status tx = PubTxStatusFailed)
          \<and> (c (From tx) = None \<or> (\<exists>v. c (From tx) = Some v \<and> v < Nonce tx)))
   \<and> (fst (updateCompletedTxNonce tx c)
      \<longrightarrow> snd (updateCompletedTxNonce tx c) = c(From tx \<mapsto> Nonce tx))
   \<and> (\<not> fst (updateCompletedTxNonce tx c) \<longrightarrow> snd (updateCompletedTxNonce tx c) = c)
   \<and> (\<forall>a. a \<noteq> From tx \<longrightarrow> snd (updateCompletedTxNonce tx c) a = c a)"
proof (intro conjI)
  show "Status tx \<noteq> PubTxStatusSucceeded \<and> Status tx \<noteq> PubTxStatusFailed
      \<longrightarrow> updateCompletedTxNonce tx c = (False, c)"
    by (simp add: updateCompletedTxNonce_def)
  show "(\<exists>v. c (From tx) = Some v \<and> Nonce tx \<le> v)
      \<longrightarrow> updateCompletedTxNonce tx c = (False, c)"
    by (auto simp: updateCompletedTxNonce_def mapRead_def Cmp_less)
  show "fst (updateCompletedTxNonce tx c)
      \<longleftrightarrow> (Status tx = PubTxStatusSucceeded \<or> Status tx = PubTxStatusFailed)
          \<and> (c (From tx) = None \<or> (\<exists>v. c (From tx) = Some v \<and> v < Nonce tx))"
    by (auto simp: updateCompletedTxNonce_def mapRead_def Cmp_less split: option.splits)
  show "fst (updateCompletedTxNonce tx c)
      \<longrightarrow> snd (updateCompletedTxNonce tx c) = c(From tx \<mapsto> Nonce tx)"
    by (auto simp: updateCompletedTxNonce_def mapRead_def Cmp_less split: option.splits)
  show "\<not> fst (updateCompletedTxNonce tx c) \<longrightarrow> snd (updateCompletedTxNonce tx c) = c"
    by (auto simp: updateCompletedTxNonce_def mapRead_def Cmp_less split: option.splits)
  show "\<forall>a. a \<noteq> From tx \<longrightarrow> snd (updateCompletedTxNonce tx c) a = c a"
    by (simp add: updateCompletedTxNonce_other)
qed

theorem updateCompletedTxNonce_frame_witness:
  "updateCompletedTxNonce (sampleTx ''0xA'' 5 PubTxStatusPending 1) [''0xA'' \<mapsto> 3] = (False, [''0xA'' \<mapsto> 3])
   \<and> updateCompletedTxNonce (sampleTx ''0xA'' 5 PubTxStatusSucceeded 1) [''0xA'' \<mapsto> 7] = (False, [''0xA'' \<mapsto> 7])
   \<and> fst (updateCompletedTxNonce (sampleTx ''0xA'' 5 PubTxStatusFailed 1) [''0xA'' \<mapsto> 3, ''0xB'' \<mapsto> 9])
   \<and> snd (updateCompletedTxNonce (sampleTx ''0xA'' 5 PubTxStatusFailed 1) [''0xA'' \<mapsto> 3, ''0xB'' \<mapsto> 9])
        = [''0xA'' \<mapsto> 3, ''0xB'' \<mapsto> 9](''0xA'' \<mapsto> 5)
   \<and> snd (updateCompletedTxNonce (sampleTx ''0xA'' 5 PubTxStatusFailed 1) [''0xA'' \<mapsto> 3, ''0xB'' \<mapsto> 9]) ''0xB''
        = Some 9"
  using updateCompletedTxNonce_frame [of "sampleTx ''0xA'' 5 PubTxStatusPending 1" "[''0xA'' \<mapsto> 3]"]
        updateCompletedTxNonce_frame [of "sampleTx ''0xA'' 5 PubTxStatusSucceeded 1" "[''0xA'' \<mapsto> 7]"]
        updateCompletedTxNonce_frame [of "sampleTx ''0xA'' 5 PubTxStatusFailed 1" "[''0xA'' \<mapsto> 3, ''0xB'' \<mapsto> 9]"]
  by (simp add: sampleTx_def)

text \<open>
  Claim C3. The completed-nonce cache is monotone. For every signing address that has an
  entry, one call of \<^verbatim>\<open>updateCompletedTxNonce\<close> leaves an entry that is at least the
  old one, and so does every sequence of calls of the cache's writers
  (\<^verbatim>\<open>updateCompletedTxNonce\<close> and \<^verbatim>\<open>CheckTransactionCompleted\<close>, with any store
  state at each call): an entry is never lowered and never removed.
\<close>

theorem completedTxNonce_monotone:
  assumes "c a = Some v"
  shows "(\<exists>v'. snd (updateCompletedTxNonce tx c) a = Some v' \<and> v \<le> v')
       \<and> (\<exists>v'. applyOps ops c a = Some v' \<and> v \<le> v')"
  using assms updateCompletedTxNonce_mono applyOps_mono by blast

theorem completedTxNonce_monotone_witness:
  "[''0xA'' \<mapsto> (3::int)] ''0xA'' = Some 3
   \<and> (\<exists>v'. snd (updateCompletedTxNonce (sampleTx ''0xA'' 2 PubTxStatusSucceeded 1) [''0xA'' \<mapsto> 3]) ''0xA'' = Some v' \<and> 3 \<le> v')
   \<and> (\<exists>v'. applyOps [OpUpdate (sampleTx ''0xA'' 2 PubTxStatusSucceeded 1),
                       OpCheck sampleStore (sampleTx ''0xB'' 4 PubTxStatusPending 6),
                       OpUpdate (sampleTx ''0xA'' 8 PubTxStatusFailed 7)] [''0xA'' \<mapsto> 3] ''0xA'' = Some v' \<and> 3 \<le> v')"
proof -
  have h: "[''0xA'' \<mapsto> (3::int)] ''0xA'' = Some 3" by simp
  from completedTxNonce_monotone [of "[''0xA'' \<mapsto> 3]" "''0xA''" 3
      "sampleTx ''0xA'' 2 PubTxStatusSucceeded 1"
      "[OpUpdate (sampleTx ''0xA'' 2 PubTxStatusSucceeded 1),
        OpCheck sampleStore (sampleTx ''0xB'' 4 PubTxStatusPending 6),
        OpUpdate (sampleTx ''0xA'' 8 PubTxStatusFailed 7)]"] h
  show ?thesis by blast
qed

subsection \<open>Checking a transaction against the cache\<close>

lemma sorted_le_last:
  "sorted ys \<Longrightarrow> y \<in> set ys \<Longrightarrow> y \<le> (last ys :: 'a :: linorder)"
  by (induction ys) auto

lemma hd_rev_sort_key_Max:
  assumes "xs \<noteq> []"
  shows "f (hd (rev (sort_key f xs))) = Max (set (map f xs))"
proof -
  let ?ys = "sort_key f xs"
  have ne: "?ys \<noteq> []" using assms by (metis length_sort list.size(3) length_0_conv)
  have s: "sorted (map f ?ys)" by simp
  have "hd (rev ?ys) = last ?ys" using ne by (simp add: hd_rev)
  then have "f (hd (rev ?ys)) = last (map f ?ys)" using ne by (simp add: last_map)
  also have "\<dots> = Max (set (map f ?ys))"
  proof (rule Max_eqI [symmetric])
    show "finite (set (map f ?ys))" by simp
    show "last (map f ?ys) \<in> set (map f ?ys)" using ne by (intro last_in_set) simp
    fix y assume "y \<in> set (map f ?ys)"
    then show "y \<le> last (map f ?ys)" using sorted_le_last [OF s] by blast
  qed
  finally show ?thesis by simp
qed

lemma filter_terminal_query:
  "filter (matchesQuery \<lparr>InStatus = [PubTxStatusSucceeded, PubTxStatusFailed],
                     Sort = Some ''-nonce'', Limit = Some 1, NotFrom = [],
                     From_query = Some a\<rparr>) rows = terminalRowsOf rows a"
  unfolding terminalRowsOf_def
  by (rule filter_cong) (auto simp: matchesQuery_def)

lemma ListTransactions_terminal_query:
  "ListTransactions (StoreRows rows)
      \<lparr>InStatus = [PubTxStatusSucceeded, PubTxStatusFailed],
                     Sort = Some ''-nonce'', Limit = Some 1, NotFrom = [],
                     From_query = Some a\<rparr>
    = Inr (take 1 (rev (sort_key Nonce (terminalRowsOf rows a))))"
  by (simp add: ListTransactions_def limitRows_def sortRows_def filter_terminal_query)

lemma ListTransactions_terminal_empty:
  "terminalRowsOf rows a = [] \<Longrightarrow>
   ListTransactions (StoreRows rows)
      \<lparr>InStatus = [PubTxStatusSucceeded, PubTxStatusFailed],
                     Sort = Some ''-nonce'', Limit = Some 1, NotFrom = [],
                     From_query = Some a\<rparr> = Inr []"
  by (simp add: ListTransactions_terminal_query)

lemma ListTransactions_terminal_found:
  assumes "terminalRowsOf rows a \<noteq> []"
  shows "\<exists>t0. ListTransactions (StoreRows rows)
      \<lparr>InStatus = [PubTxStatusSucceeded, PubTxStatusFailed],
                     Sort = Some ''-nonce'', Limit = Some 1, NotFrom = [],
                     From_query = Some a\<rparr> = Inr [t0]
      \<and> From t0 = a \<and> (Status t0 = PubTxStatusSucceeded \<or> Status t0 = PubTxStatusFailed)
      \<and> Nonce t0 = Max (set (map Nonce (terminalRowsOf rows a)))"
proof -
  let ?T = "terminalRowsOf rows a"
  let ?ys = "rev (sort_key Nonce ?T)"
  have ne: "?ys \<noteq> []" using assms by (metis length_sort length_rev list.size(3) length_0_conv)
  then obtain t0 ts where ys: "?ys = t0 # ts" by (cases ?ys) auto
  have "t0 \<in> set ?ys" using ys by simp
  then have "t0 \<in> set ?T" by simp
  then have p: "From t0 = a \<and> (Status t0 = PubTxStatusSucceeded \<or> Status t0 = PubTxStatusFailed)"
    by (simp add: terminalRowsOf_def)
  have "Nonce (hd ?ys) = Max (set (map Nonce ?T))" using assms by (rule hd_rev_sort_key_Max)
  then have m: "Nonce t0 = Max (set (map Nonce ?T))" using ys by simp
  have "take 1 ?ys = [t0]" using ys by simp
  then show ?thesis using p m by (simp add: ListTransactions_terminal_query)
qed

text \<open>
  Claim C4. For every transaction, \<^verbatim>\<open>CheckTransactionCompleted\<close> returns true iff the
  cache, as the call leaves it, holds an entry for \<^verbatim>\<open>tx.From\<close> that is at least
  \<^verbatim>\<open>tx.Nonce\<close>. With an entry in the cache the comparison is against that entry, the
  cache is unchanged and the store is not queried. Without one, the store is queried
  once for the rows of \<^verbatim>\<open>tx.From\<close> in status Succeeded or Failed, by descending nonce,
  limit 1; when the store answers with a row, the cache is populated with the highest
  terminal nonce of \<^verbatim>\<open>tx.From\<close> and the comparison is against that nonce; when the
  store fails or holds no such row, the result is false and the cache is unchanged.
\<close>

theorem CheckTransactionCompleted_spec:
  assumes "CheckTransactionCompleted store tx c = (completed, c', qs)"
  shows "(completed \<longleftrightarrow> (\<exists>v. c' (From tx) = Some v \<and> Nonce tx \<le> v))
    \<and> (\<forall>v. c (From tx) = Some v \<longrightarrow> completed = (Nonce tx \<le> v) \<and> c' = c \<and> qs = [])
    \<and> (c (From tx) = None \<longrightarrow>
          qs = [\<lparr>InStatus = [PubTxStatusSucceeded, PubTxStatusFailed],
                      Sort = Some ''-nonce'', Limit = Some 1, NotFrom = [],
                      From_query = Some (From tx)\<rparr>]
          \<and> (case highestTerminalNonce store (From tx) of
                None \<Rightarrow> \<not> completed \<and> c' = c
              | Some n \<Rightarrow> completed = (Nonce tx \<le> n) \<and> c' = c(From tx \<mapsto> n)))"
proof (cases "c (From tx)")
  case (Some v)
  then have "completed = (Nonce tx \<le> v) \<and> c' = c \<and> qs = []"
    using assms by (simp add: CheckTransactionCompleted_def mapRead_def Cmp_ge)
  then show ?thesis using Some by simp
next
  case None
  let ?tf = "\<lparr>InStatus = [PubTxStatusSucceeded, PubTxStatusFailed],
                      Sort = Some ''-nonce'', Limit = Some 1, NotFrom = [],
                      From_query = Some (From tx)\<rparr>"
  show ?thesis
  proof (cases store)
    case (StoreFailing e)
    then have "\<not> completed \<and> c' = c \<and> qs = [?tf]"
      using assms None
      by (auto simp: CheckTransactionCompleted_def mapRead_def ListTransactions_def)
    then show ?thesis using None StoreFailing by (simp add: highestTerminalNonce_def)
  next
    case (StoreRows rows)
    show ?thesis
    proof (cases "terminalRowsOf rows (From tx) = []")
      case True
      then have "\<not> completed \<and> c' = c \<and> qs = [?tf]"
        using assms None StoreRows
        by (auto simp: CheckTransactionCompleted_def mapRead_def ListTransactions_terminal_empty)
      then show ?thesis using None StoreRows True by (simp add: highestTerminalNonce_def)
    next
      case False
      then obtain t0 where
        l: "ListTransactions (StoreRows rows) ?tf = Inr [t0]" and
        f: "From t0 = From tx" and
        s: "Status t0 = PubTxStatusSucceeded \<or> Status t0 = PubTxStatusFailed" and
        m: "Nonce t0 = Max (set (map Nonce (terminalRowsOf rows (From tx))))"
        using ListTransactions_terminal_found by blast
      have u: "snd (updateCompletedTxNonce t0 c) = c(From tx \<mapsto> Nonce t0)"
        using None f s by (auto simp: updateCompletedTxNonce_def mapRead_def)
      have "completed = (Nonce tx \<le> Nonce t0) \<and> c' = c(From tx \<mapsto> Nonce t0) \<and> qs = [?tf]"
        using assms None StoreRows l u
        by (auto simp: CheckTransactionCompleted_def mapRead_def Cmp_ge)
      then show ?thesis using None StoreRows False m by (simp add: highestTerminalNonce_def)
    qed
  qed
qed

theorem CheckTransactionCompleted_spec_witness:
  "CheckTransactionCompleted sampleStore (sampleTx ''0xA'' 6 PubTxStatusPending 9) Map.empty
     = (True, [''0xA'' \<mapsto> 7],
        [\<lparr>InStatus = [PubTxStatusSucceeded, PubTxStatusFailed],
          Sort = Some ''-nonce'', Limit = Some 1, NotFrom = [], From_query = Some ''0xA''\<rparr>])
   \<and> highestTerminalNonce sampleStore ''0xA'' = Some 7
   \<and> CheckTransactionCompleted sampleStore (sampleTx ''0xA'' 6 PubTxStatusPending 9) [''0xA'' \<mapsto> 5]
     = (False, [''0xA'' \<mapsto> 5], [])"
proof -
  let ?tx = "sampleTx ''0xA'' 6 PubTxStatusPending 9"
  obtain b c' q where e: "CheckTransactionCompleted sampleStore ?tx Map.empty = (b, c', q)"
    by (cases "CheckTransactionCompleted sampleStore ?tx Map.empty") auto
  have f: "From ?tx = ''0xA''" "Nonce ?tx = 6" by (simp_all add: sampleTx_def)
  have hi: "highestTerminalNonce sampleStore ''0xA'' = Some 7"
    by (simp add: highestTerminalNonce_def sampleStore_def terminalRowsOf_def sampleTx_def)
  from CheckTransactionCompleted_spec [OF e] have
    "q = [\<lparr>InStatus = [PubTxStatusSucceeded, PubTxStatusFailed],
          Sort = Some ''-nonce'', Limit = Some 1, NotFrom = [], From_query = Some ''0xA''\<rparr>]
     \<and> b = True \<and> c' = [''0xA'' \<mapsto> 7]"
    by (simp add: f hi)
  then have 1: "CheckTransactionCompleted sampleStore ?tx Map.empty
     = (True, [''0xA'' \<mapsto> 7],
        [\<lparr>InStatus = [PubTxStatusSucceeded, PubTxStatusFailed],
          Sort = Some ''-nonce'', Limit = Some 1, NotFrom = [], From_query = Some ''0xA''\<rparr>])"
    using e by simp
  obtain b2 c2 q2 where e2: "CheckTransactionCompleted sampleStore ?tx [''0xA'' \<mapsto> 5] = (b2, c2, q2)"
    by (cases "CheckTransactionCompleted sampleStore ?tx [''0xA'' \<mapsto> 5]") auto
  from CheckTransactionCompleted_spec [OF e2] have "b2 = False \<and> c2 = [''0xA'' \<mapsto> 5] \<and> q2 = []"
    by (simp add: f)
  then show ?thesis using 1 hi e2 by simp
qed

section \<open>Properties of the engine's poll\<close>

subsection \<open>The retry loop\<close>

lemma retryDo_success:
  "snd (f attempt) = Inr v \<Longrightarrow> retryDo d f attempt = Some (Inr v, attempt)"
  by (subst retryDo.simps) (cases "f attempt", simp)

lemma retryDo_cancelled:
  "f attempt = (True, Inl e) \<Longrightarrow> d attempt \<Longrightarrow>
   retryDo d f attempt = Some (Inl ContextCancelled, attempt)"
  by (subst retryDo.simps) simp

lemma retryDo_again:
  "f attempt = (True, Inl e) \<Longrightarrow> \<not> d attempt \<Longrightarrow>
   retryDo d f attempt = retryDo d f (Suc attempt)"
  by (subst retryDo.simps) simp

lemma retryDo_skip:
  "(\<And>k. attempt \<le> k \<Longrightarrow> k < attempt + n \<Longrightarrow> (\<exists>e. f k = (True, Inl e)) \<and> \<not> d k) \<Longrightarrow>
   retryDo d f attempt = retryDo d f (attempt + n)"
proof (induction n arbitrary: attempt)
  case 0
  then show ?case by simp
next
  case (Suc n)
  have "(\<exists>e. f attempt = (True, Inl e)) \<and> \<not> d attempt" using Suc.prems [of attempt] by simp
  then have "retryDo d f attempt = retryDo d f (Suc attempt)" using retryDo_again by blast
  also have "\<dots> = retryDo d f (Suc attempt + n)"
    by (rule Suc.IH) (use Suc.prems in auto)
  finally show ?case by simp
qed

lemma retryOutcome_step:
  assumes "f attempt = (True, Inl e)" "\<not> d attempt" "retryOutcome d f (Suc attempt) y"
  shows "retryOutcome d f attempt y"
proof -
  have "(\<exists>e'. snd (f k) = Inl e') \<and> \<not> d k" if "attempt \<le> k \<and> k < snd y" for k
  proof (cases "k = attempt")
    case True
    then show ?thesis using assms(1,2) by simp
  next
    case False
    then have "Suc attempt \<le> k \<and> k < snd y" using that by simp
    then show ?thesis using assms(3) by (simp add: retryOutcome_def)
  qed
  then show ?thesis using assms(3) by (simp add: retryOutcome_def)
qed

lemma retryDo_result:
  assumes "retryDo d f attempt = Some y"
  shows "retryOutcome d f attempt y"
proof (rule retryDo.raw_induct [where P = retryOutcome, OF _ assms])
  fix retryDo' :: "(nat \<Rightarrow> bool) \<Rightarrow> (nat \<Rightarrow> bool \<times> (error + 'a)) \<Rightarrow> nat \<Rightarrow> ((error + 'a) \<times> nat) option"
  fix d f attempt y
  assume ih: "\<And>d f attempt y. retryDo' d f attempt = Some y \<Longrightarrow> retryOutcome d f attempt y"
  assume body: "(case f attempt of
      (again, Inl err) \<Rightarrow>
        if \<not> again then Some (Inl err, attempt)
        else if d attempt then Some (Inl ContextCancelled, attempt)
             else retryDo' d f (Suc attempt)
      | (again, Inr v) \<Rightarrow> Some (Inr v, attempt)) = Some y"
  obtain r x where fa: "f attempt = (r, x)" by (cases "f attempt")
  show "retryOutcome d f attempt y"
  proof (cases x)
    case (Inr v)
    then show ?thesis using body fa by (auto simp: retryOutcome_def)
  next
    case (Inl e)
    show ?thesis
    proof (cases "\<not> r \<or> d attempt")
      case True
      then show ?thesis using body fa Inl by (auto simp: retryOutcome_def split: if_splits)
    next
      case False
      then have "retryDo' d f (Suc attempt) = Some y" using body fa Inl by auto
      then have "retryOutcome d f (Suc attempt) y" by (rule ih)
      then show ?thesis using retryOutcome_step [of f attempt e d y] fa Inl False by simp
    qed
  qed
qed

subsection \<open>The loops of poll\<close>

lemma length_update_le: "length (AList.update k v al) \<le> Suc (length al)"
  by (induction al) auto

lemma map_fst_update_present:
  "k \<in> fst ` set al \<Longrightarrow> map fst (AList.update k v al) = map fst al"
  by (simp add: update_keys)

lemma reapLoop_Cons:
  "reapLoop ble t ((a, oc) # xs) (m, sc, ad) = reapLoop ble t xs (m, sc, ad)
   \<or> (\<exists>v sc'. reapLoop ble t ((a, oc) # xs) (m, sc, ad)
                  = reapLoop ble t xs (AList.update a v m, sc', ad @ [a]))"
proof -
  define oc' where "oc' =
     (if (state oc = OrchestratorStateStale \<and> t - stateEntryTime oc > maxOrchestratorStale ble)
         \<or> (state oc = OrchestratorStateIdle \<and> t - stateEntryTime oc > maxOrchestratorIdle ble)
      then Stop oc else oc)"
  have e: "reapLoop ble t ((a, oc) # xs) (m, sc, ad) =
     (if state oc' \<noteq> OrchestratorStateStopped
      then reapLoop ble t xs
             (AList.update a (MarkInFlightTxStale oc') m,
              sc(state oc' := sc (state oc') + 1), ad @ [a])
      else reapLoop ble t xs (m, sc, ad))"
    unfolding oc'_def by (simp only: reapLoop.simps Let_def)
  show ?thesis
  proof (cases "state oc' \<noteq> OrchestratorStateStopped")
    case True
    then have "reapLoop ble t ((a, oc) # xs) (m, sc, ad) =
       reapLoop ble t xs
             (AList.update a (MarkInFlightTxStale oc') m,
              sc(state oc' := sc (state oc') + 1), ad @ [a])"
      using e by simp
    then show ?thesis by blast
  next
    case False
    then show ?thesis using e by simp
  qed
qed

lemma reapLoop_keys:
  "fst ` set (fst (reapLoop ble t xs (m, sc, ad))) \<subseteq> fst ` set m \<union> fst ` set xs"
proof (induction xs arbitrary: m sc ad)
  case Nil
  then show ?case by simp
next
  case (Cons x xs)
  obtain a oc where x: "x = (a, oc)" by (cases x)
  from reapLoop_Cons [of ble t a oc xs m sc ad] show ?case
  proof
    assume "reapLoop ble t ((a, oc) # xs) (m, sc, ad) = reapLoop ble t xs (m, sc, ad)"
    then show ?thesis using Cons.IH [of m sc ad] x by auto
  next
    assume "\<exists>v sc'. reapLoop ble t ((a, oc) # xs) (m, sc, ad)
                  = reapLoop ble t xs (AList.update a v m, sc', ad @ [a])"
    then obtain v sc' where
      e: "reapLoop ble t ((a, oc) # xs) (m, sc, ad)
            = reapLoop ble t xs (AList.update a v m, sc', ad @ [a])" by blast
    show ?thesis using Cons.IH [of "AList.update a v m" sc' "ad @ [a]"] x e
      by (auto simp: dom_update)
  qed
qed

lemma reapLoop_length:
  "length (fst (reapLoop ble t xs (m, sc, ad))) \<le> length m + length xs"
proof (induction xs arbitrary: m sc ad)
  case Nil
  then show ?case by simp
next
  case (Cons x xs)
  obtain a oc where x: "x = (a, oc)" by (cases x)
  from reapLoop_Cons [of ble t a oc xs m sc ad] show ?case
  proof
    assume "reapLoop ble t ((a, oc) # xs) (m, sc, ad) = reapLoop ble t xs (m, sc, ad)"
    then show ?thesis using Cons.IH [of m sc ad] x by simp
  next
    assume "\<exists>v sc'. reapLoop ble t ((a, oc) # xs) (m, sc, ad)
                  = reapLoop ble t xs (AList.update a v m, sc', ad @ [a])"
    then obtain v sc' where
      e: "reapLoop ble t ((a, oc) # xs) (m, sc, ad)
            = reapLoop ble t xs (AList.update a v m, sc', ad @ [a])" by blast
    show ?thesis
      using Cons.IH [of "AList.update a v m" sc' "ad @ [a]"] length_update_le [of a v m] x e
      by simp
  qed
qed

lemma reapLoop_distinct:
  "distinct (map fst m) \<Longrightarrow> distinct (map fst (fst (reapLoop ble t xs (m, sc, ad))))"
proof (induction xs arbitrary: m sc ad)
  case Nil
  then show ?case by simp
next
  case (Cons x xs)
  obtain a oc where x: "x = (a, oc)" by (cases x)
  from reapLoop_Cons [of ble t a oc xs m sc ad] show ?case
  proof
    assume "reapLoop ble t ((a, oc) # xs) (m, sc, ad) = reapLoop ble t xs (m, sc, ad)"
    then show ?thesis using Cons.IH [of m sc ad] Cons.prems x by simp
  next
    assume "\<exists>v sc'. reapLoop ble t ((a, oc) # xs) (m, sc, ad)
                  = reapLoop ble t xs (AList.update a v m, sc', ad @ [a])"
    then obtain v sc' where
      e: "reapLoop ble t ((a, oc) # xs) (m, sc, ad)
            = reapLoop ble t xs (AList.update a v m, sc', ad @ [a])" by blast
    show ?thesis
      using Cons.IH [of "AList.update a v m" sc' "ad @ [a]"] distinct_update [OF Cons.prems] x e
      by simp
  qed
qed

lemma reapLoop_addresses:
  "set ad = fst ` set m \<Longrightarrow>
   set (snd (snd (reapLoop ble t xs (m, sc, ad)))) = fst ` set (fst (reapLoop ble t xs (m, sc, ad)))"
proof (induction xs arbitrary: m sc ad)
  case Nil
  then show ?case by simp
next
  case (Cons x xs)
  obtain a oc where x: "x = (a, oc)" by (cases x)
  from reapLoop_Cons [of ble t a oc xs m sc ad] show ?case
  proof
    assume "reapLoop ble t ((a, oc) # xs) (m, sc, ad) = reapLoop ble t xs (m, sc, ad)"
    then show ?thesis using Cons.IH [of ad m sc] Cons.prems x by simp
  next
    assume "\<exists>v sc'. reapLoop ble t ((a, oc) # xs) (m, sc, ad)
                  = reapLoop ble t xs (AList.update a v m, sc', ad @ [a])"
    then obtain v sc' where
      e: "reapLoop ble t ((a, oc) # xs) (m, sc, ad)
            = reapLoop ble t xs (AList.update a v m, sc', ad @ [a])" by blast
    have "set (ad @ [a]) = fst ` set (AList.update a v m)"
      using Cons.prems by (auto simp: dom_update)
    from Cons.IH [OF this] show ?thesis using x e by simp
  qed
qed

lemma pausedLoop_eq:
  "pausedLoop t ps (sc, ad) =
     (sc(OrchestratorStatePaused :=
           sc OrchestratorStatePaused + int (length (filter (\<lambda>(a, u). t < u) ps))),
      ad @ map fst (filter (\<lambda>(a, u). t < u) ps))"
proof (induction ps arbitrary: sc ad)
  case Nil
  then show ?case by simp
next
  case (Cons p ps)
  obtain a u where p: "p = (a, u)" by (cases p)
  show ?case unfolding p by (auto simp: Cons.IH fun_eq_iff)
qed

lemma createLoop_length:
  "length (fst (createLoop t rows (m, sc))) \<le> length m + length rows"
proof (induction rows arbitrary: m sc)
  case Nil
  then show ?case by simp
next
  case (Cons r rows)
  have "length (fst (createLoop t rows (AList.update a v m, sc'))) \<le> Suc (length m) + length rows"
    for a v sc'
    using Cons.IH [of "AList.update a v m" sc'] length_update_le [of a v m] by linarith
  moreover have "length (fst (createLoop t rows (m, sc))) \<le> length m + length rows"
    by (rule Cons.IH)
  ultimately show ?case by (simp add: Let_def)
qed

lemma createLoop_distinct:
  "distinct (map fst m) \<Longrightarrow> distinct (map fst (fst (createLoop t rows (m, sc))))"
  by (induction rows arbitrary: m sc) (simp_all add: Let_def distinct_update)

lemma createLoop_keys:
  "fst ` set (fst (createLoop t rows (m, sc))) = fst ` set m \<union> From ` set rows"
proof (induction rows arbitrary: m sc)
  case Nil
  then show ?case by simp
next
  case (Cons r rows)
  have "map_of m (From r) \<noteq> None \<Longrightarrow> From r \<in> fst ` set m"
    by (metis map_of_eq_None_iff)
  then show ?case using Cons.IH by (auto simp: Let_def dom_update)
qed

lemma createLoop_counts:
  "s \<noteq> OrchestratorStateStale \<Longrightarrow> snd (createLoop t rows (m, sc)) s = sc s"
  by (induction rows arbitrary: m sc) (simp_all add: Let_def NewOrchestrator_def)

lemma evictLoop_keys:
  "fst ` set xs \<subseteq> fst ` set m \<Longrightarrow> map fst (fst (evictLoop ble t xs (m, p))) = map fst m"
proof (induction xs arbitrary: m p)
  case Nil
  then show ?case by simp
next
  case (Cons x xs)
  obtain a oc where x: "x = (a, oc)" by (cases x)
  have a: "a \<in> fst ` set m" using Cons.prems x by auto
  have "map fst (fst (evictLoop ble t xs (AList.update a v m, p'))) = map fst m" for v p'
  proof -
    have k: "map fst (AList.update a v m) = map fst m" using a by (rule map_fst_update_present)
    then have "fst ` set xs \<subseteq> fst ` set (AList.update a v m)"
      using Cons.prems by (auto simp: dom_update)
    from Cons.IH [OF this] k show ?thesis by simp
  qed
  moreover have "map fst (fst (evictLoop ble t xs (m, p))) = map fst m"
    using Cons.IH Cons.prems by auto
  ultimately show ?case unfolding x by simp
qed

lemma evictLoop_untouched:
  "a \<notin> fst ` set xs \<Longrightarrow>
   map_of (fst (evictLoop ble t xs (m, p))) a = map_of m a
   \<and> map_of (snd (evictLoop ble t xs (m, p))) a = map_of p a"
proof (induction xs arbitrary: m p)
  case Nil
  then show ?case by simp
next
  case (Cons x xs)
  obtain b oc where x: "x = (b, oc)" by (cases x)
  have "a \<noteq> b" "a \<notin> fst ` set xs" using Cons.prems x by auto
  then show ?case unfolding x using Cons.IH by (simp add: update_conv')
qed

lemma evictLoop_evicted:
  "distinct (map fst xs) \<Longrightarrow> (a, oc) \<in> set xs \<Longrightarrow>
   t - orchestratorBirthTime oc > maxOverloadProcessTime ble \<Longrightarrow>
   map_of (fst (evictLoop ble t xs (m, p))) a = Some (Stop oc)
   \<and> map_of (snd (evictLoop ble t xs (m, p))) a = Some (t + maxOverloadProcessTime ble)"
proof (induction xs arbitrary: m p)
  case Nil
  then show ?case by simp
next
  case (Cons x xs)
  obtain b oc' where x: "x = (b, oc')" by (cases x)
  show ?case
  proof (cases "(a, oc) = x")
    case True
    then have "a \<notin> fst ` set xs" using Cons.prems(1) x by auto
    then show ?thesis using True [symmetric] Cons.prems(3)
      by (simp add: evictLoop_untouched update_conv')
  next
    case False
    then have "(a, oc) \<in> set xs" "distinct (map fst xs)" using Cons.prems by auto
    then show ?thesis unfolding x using Cons.IH Cons.prems(3) by simp
  qed
qed

subsection \<open>The store's answer to a query\<close>

lemma ListTransactions_limit:
  "ListTransactions st tf = Inr rows \<Longrightarrow> Limit tf = Some n \<Longrightarrow> length rows \<le> nat n"
  by (auto simp: ListTransactions_def limitRows_def split: txStore.splits)

lemma ListTransactions_matches:
  assumes "ListTransactions st tf = Inr rows" "r \<in> set rows"
  shows "matchesQuery tf r"
proof -
  obtain db where st: "st = StoreRows db"
    using assms(1) by (cases st) (auto simp: ListTransactions_def)
  have rows: "rows = limitRows (Limit tf) (sortRows (Sort tf) (filter (matchesQuery tf) db))"
    using assms(1) st by (simp add: ListTransactions_def)
  have "set (limitRows l xs) \<subseteq> set xs" for l xs
    by (auto simp: limitRows_def split: option.splits dest: in_set_takeD)
  then have "r \<in> set (sortRows (Sort tf) (filter (matchesQuery tf) db))"
    using assms(2) rows by blast
  then have "r \<in> set (filter (matchesQuery tf) db)"
    by (simp add: sortRows_def split: if_splits)
  then show ?thesis by simp
qed

lemma reapLoop_triple:
  "reapLoop ble t (InFlightOrchestrators ble) ([], (\<lambda>s. 0), [])
     = (survivors ble t, reapCounts ble t, reapAddresses ble t)"
  by (simp add: survivors_def reapCounts_def reapAddresses_def)

lemma poll_full:
  assumes "maxInFlightOrchestrators ble \<le> int (length (survivors ble (timeNow env)))"
  shows "poll ble env =
     Some \<lparr>polled = 0, total_ret = 0,
           engine = ble\<lparr>InFlightOrchestrators := fst (pollEvicted ble (timeNow env)),
                        SigningAddressesPausedUntil := snd (pollEvicted ble (timeNow env))\<rparr>,
           queries = [], waits = [],
           metrics = Some (reapCounts ble (timeNow env),
             maxInFlightOrchestrators ble - int (length (fst (pollEvicted ble (timeNow env)))))\<rparr>"
  using assms
  by (simp add: poll_def reapLoop_triple pollEvicted_def Let_def split: prod.splits)

lemma poll_free:
  assumes "int (length (survivors ble (timeNow env))) < maxInFlightOrchestrators ble"
  shows "poll ble env =
     (case retryDo (ctxDoneAfter env)
             (\<lambda>attempt. (True, ListTransactions (txStoreAt env attempt) (pollQuery ble (timeNow env)))) 1 of
        None \<Rightarrow> None
      | Some (Inl err, n) \<Rightarrow>
          Some \<lparr>polled = - 1,
                total_ret = int (length (survivors ble (timeNow env))),
                engine = ble\<lparr>InFlightOrchestrators := survivors ble (timeNow env)\<rparr>,
                queries = replicate n (pollQuery ble (timeNow env)),
                waits = map (retryDelay (retry ble)) [1..<Suc n],
                metrics = None\<rparr>
      | Some (Inr rows, n) \<Rightarrow>
          Some \<lparr>polled =
                  (if int (length (fst (pollCreated ble (timeNow env) rows))) > 0
                   then int (length (fst (pollCreated ble (timeNow env) rows)))
                        - int (length (survivors ble (timeNow env)))
                   else 0),
                total_ret = int (length (fst (pollCreated ble (timeNow env) rows))),
                engine = ble\<lparr>InFlightOrchestrators := fst (pollCreated ble (timeNow env) rows)\<rparr>,
                queries = replicate n (pollQuery ble (timeNow env)),
                waits = map (retryDelay (retry ble)) [1..<n],
                metrics = Some (snd (pollCreated ble (timeNow env) rows),
                  maxInFlightOrchestrators ble
                    - int (length (fst (pollCreated ble (timeNow env) rows))))\<rparr>)"
proof -
  have q: "\<lparr>InStatus = [PubTxStatusPending], Sort = Some ''sequence'',
            Limit = Some (maxInFlightOrchestrators ble - int (length (survivors ble (timeNow env)))),
            NotFrom = (if length (reapAddresses ble (timeNow env) @ map fst (stillPaused ble (timeNow env))) > 0
                       then reapAddresses ble (timeNow env) @ map fst (stillPaused ble (timeNow env)) else []),
            From_query = None\<rparr> = pollQuery ble (timeNow env)"
    by (simp add: pollQuery_def)
  have c: "(reapCounts ble (timeNow env))(OrchestratorStatePaused :=
        reapCounts ble (timeNow env) OrchestratorStatePaused + int (length (stillPaused ble (timeNow env))))
      = pausedCounts ble (timeNow env)"
    by (simp add: pausedCounts_def)
  show ?thesis
    using assms
    apply (simp only: poll_def reapLoop_triple Let_def prod.case pausedLoop_eq
       stillPaused_def [symmetric])
    apply (simp only: q c)
    apply (simp add: pollCreated_def split: option.splits prod.splits sum.splits)
    done
qed

lemma survivors_length: "length (survivors ble t) \<le> length (InFlightOrchestrators ble)"
  using reapLoop_length [of ble t "InFlightOrchestrators ble" "[]"] by (simp add: survivors_def)

lemma survivors_distinct: "distinct (map fst (survivors ble t))"
  using reapLoop_distinct [of "[]"] by (simp add: survivors_def)

lemma reapAddresses_set: "set (reapAddresses ble t) = fst ` set (survivors ble t)"
  using reapLoop_addresses [of "[]" "[]"] by (simp add: survivors_def reapAddresses_def)

lemma pollCreated_length:
  "length (fst (pollCreated ble t rows)) \<le> length (survivors ble t) + length rows"
  by (simp add: pollCreated_def createLoop_length)

lemma pollCreated_distinct: "distinct (map fst (fst (pollCreated ble t rows)))"
  by (simp add: pollCreated_def createLoop_distinct survivors_distinct)

lemma pollCreated_keys:
  "fst ` set (fst (pollCreated ble t rows)) = fst ` set (survivors ble t) \<union> From ` set rows"
  by (simp add: pollCreated_def createLoop_keys)

lemma pollEvicted_keys: "map fst (fst (pollEvicted ble t)) = map fst (survivors ble t)"
  by (simp add: pollEvicted_def evictLoop_keys)

lemma pollEvicted_length: "length (fst (pollEvicted ble t)) = length (survivors ble t)"
  using pollEvicted_keys [of ble t] by (metis length_map)

lemma poll_free_cases:
  assumes free: "int (length (survivors ble (timeNow env))) < maxInFlightOrchestrators ble"
    and some: "poll ble env = Some r"
  shows "(\<exists>n. 1 \<le> n \<and> ctxDoneAfter env n
            \<and> (\<forall>k. 1 \<le> k \<and> k \<le> n \<longrightarrow>
                  (\<exists>e. ListTransactions (txStoreAt env k) (pollQuery ble (timeNow env)) = Inl e))
            \<and> (\<forall>k. 1 \<le> k \<and> k < n \<longrightarrow> \<not> ctxDoneAfter env k)
            \<and> r = \<lparr>polled = - 1,
                     total_ret = int (length (survivors ble (timeNow env))),
                     engine = ble\<lparr>InFlightOrchestrators := survivors ble (timeNow env)\<rparr>,
                     queries = replicate n (pollQuery ble (timeNow env)),
                     waits = map (retryDelay (retry ble)) [1..<Suc n],
                     metrics = None\<rparr>)
       \<or> (\<exists>n rows. 1 \<le> n
            \<and> ListTransactions (txStoreAt env n) (pollQuery ble (timeNow env)) = Inr rows
            \<and> (\<forall>k. 1 \<le> k \<and> k < n \<longrightarrow>
                  (\<exists>e. ListTransactions (txStoreAt env k) (pollQuery ble (timeNow env)) = Inl e)
                  \<and> \<not> ctxDoneAfter env k)
            \<and> r = \<lparr>polled =
                       (if int (length (fst (pollCreated ble (timeNow env) rows))) > 0
                        then int (length (fst (pollCreated ble (timeNow env) rows)))
                             - int (length (survivors ble (timeNow env)))
                        else 0),
                     total_ret = int (length (fst (pollCreated ble (timeNow env) rows))),
                     engine = ble\<lparr>InFlightOrchestrators := fst (pollCreated ble (timeNow env) rows)\<rparr>,
                     queries = replicate n (pollQuery ble (timeNow env)),
                     waits = map (retryDelay (retry ble)) [1..<n],
                     metrics = Some (snd (pollCreated ble (timeNow env) rows),
                       maxInFlightOrchestrators ble
                         - int (length (fst (pollCreated ble (timeNow env) rows))))\<rparr>)"
proof -
  let ?q = "pollQuery ble (timeNow env)"
  let ?f = "\<lambda>attempt. (True, ListTransactions (txStoreAt env attempt) ?q)"
  obtain res n where rd: "retryDo (ctxDoneAfter env) ?f 1 = Some (res, n)"
    using some poll_free [OF free] by (cases "retryDo (ctxDoneAfter env) ?f 1") auto
  from retryDo_result [OF rd] have out: "retryOutcome (ctxDoneAfter env) ?f 1 (res, n)" .
  then have n: "1 \<le> n"
    and before: "\<forall>k. 1 \<le> k \<and> k < n \<longrightarrow>
                  (\<exists>e. ListTransactions (txStoreAt env k) ?q = Inl e) \<and> \<not> ctxDoneAfter env k"
    by (simp_all add: retryOutcome_def)
  show ?thesis
  proof (cases res)
    case (Inl e)
    then have last: "(\<exists>e'. ListTransactions (txStoreAt env n) ?q = Inl e') \<and> ctxDoneAfter env n"
      using out by (simp add: retryOutcome_def)
    have all: "\<forall>k. 1 \<le> k \<and> k \<le> n \<longrightarrow> (\<exists>e. ListTransactions (txStoreAt env k) ?q = Inl e)"
      using before last by (metis le_neq_implies_less)
    have "r = \<lparr>polled = - 1,
                     total_ret = int (length (survivors ble (timeNow env))),
                     engine = ble\<lparr>InFlightOrchestrators := survivors ble (timeNow env)\<rparr>,
                     queries = replicate n ?q,
                     waits = map (retryDelay (retry ble)) [1..<Suc n],
                     metrics = None\<rparr>"
      using some poll_free [OF free] rd Inl by simp
    then show ?thesis using n last all before by blast
  next
    case (Inr rows)
    then have last: "ListTransactions (txStoreAt env n) ?q = Inr rows"
      using out by (simp add: retryOutcome_def)
    have "r = \<lparr>polled =
                       (if int (length (fst (pollCreated ble (timeNow env) rows))) > 0
                        then int (length (fst (pollCreated ble (timeNow env) rows)))
                             - int (length (survivors ble (timeNow env)))
                        else 0),
                     total_ret = int (length (fst (pollCreated ble (timeNow env) rows))),
                     engine = ble\<lparr>InFlightOrchestrators := fst (pollCreated ble (timeNow env) rows)\<rparr>,
                     queries = replicate n ?q,
                     waits = map (retryDelay (retry ble)) [1..<n],
                     metrics = Some (snd (pollCreated ble (timeNow env) rows),
                       maxInFlightOrchestrators ble
                         - int (length (fst (pollCreated ble (timeNow env) rows))))\<rparr>"
      using some poll_free [OF free] rd Inr by simp
    then show ?thesis using n last before by blast
  qed
qed

lemma poll_rows_limit:
  assumes "ListTransactions st (pollQuery ble t) = Inr rows"
  shows "int (length rows) \<le> max 0 (maxInFlightOrchestrators ble - int (length (survivors ble t)))"
proof -
  have "Limit (pollQuery ble t) = Some (maxInFlightOrchestrators ble - int (length (survivors ble t)))"
    by (simp add: pollQuery_def)
  from ListTransactions_limit [OF assms this] show ?thesis by linarith
qed

lemma pollQuery_NotFrom:
  "set (NotFrom (pollQuery ble t))
     = fst ` set (survivors ble t)
       \<union> {a. \<exists>u. (a, u) \<in> set (SigningAddressesPausedUntil ble) \<and> t < u}"
  by (auto simp: pollQuery_def reapAddresses_set stillPaused_def image_iff)

lemma pollCreated_counts:
  "s \<noteq> OrchestratorStateStale \<Longrightarrow> snd (pollCreated ble t rows) s = pausedCounts ble t s"
  by (simp add: pollCreated_def createLoop_counts)

lemma ListTransactions_failing:
  "ListTransactions (StoreFailing e) tf = Inl (DBError e)"
  by (simp add: ListTransactions_def)

lemma retryDo_fail_then_cancel:
  assumes n: "1 \<le> n"
    and fail: "\<forall>k. 1 \<le> k \<and> k \<le> n \<longrightarrow> (\<exists>e. f k = (True, Inl e))"
    and quiet: "\<forall>k. 1 \<le> k \<and> k < n \<longrightarrow> \<not> d k"
    and cancel: "d n"
  shows "retryDo d f 1 = Some (Inl ContextCancelled, n)"
proof -
  have "retryDo d f 1 = retryDo d f (1 + (n - 1))"
    by (rule retryDo_skip) (use fail quiet in auto)
  also have "\<dots> = retryDo d f n" using n by simp
  also have "\<dots> = Some (Inl ContextCancelled, n)"
    using fail n cancel retryDo_cancelled [of f n _ d] by blast
  finally show ?thesis .
qed

lemma retryDo_fail_then_answer:
  assumes n: "1 \<le> n"
    and fail: "\<forall>k. 1 \<le> k \<and> k < n \<longrightarrow> (\<exists>e. f k = (True, Inl e)) \<and> \<not> d k"
    and answer: "snd (f n) = Inr v"
  shows "retryDo d f 1 = Some (Inr v, n)"
proof -
  have "retryDo d f 1 = retryDo d f (1 + (n - 1))"
    by (rule retryDo_skip) (use fail in auto)
  also have "\<dots> = retryDo d f n" using n by simp
  also have "\<dots> = Some (Inr v, n)" using answer by (rule retryDo_success)
  finally show ?thesis .
qed

lemma retryDo_returns_iff:
  assumes again: "\<And>k. fst (f k)"
  shows "(\<exists>y. retryDo d f 1 = Some y)
           \<longleftrightarrow> (\<exists>m. 1 \<le> m \<and> ((\<exists>v. snd (f m) = Inr v) \<or> d m))"
proof
  assume "\<exists>y. retryDo d f 1 = Some y"
  then obtain y where y: "retryDo d f 1 = Some y" ..
  from retryDo_result [OF y] have out: "retryOutcome d f 1 y" .
  show "\<exists>m. 1 \<le> m \<and> ((\<exists>v. snd (f m) = Inr v) \<or> d m)"
  proof (cases "fst y")
    case (Inl e)
    then show ?thesis using out again by (auto simp: retryOutcome_def)
  next
    case (Inr v)
    then show ?thesis using out by (auto simp: retryOutcome_def)
  qed
next
  let ?P = "\<lambda>m. 1 \<le> m \<and> ((\<exists>v. snd (f m) = Inr v) \<or> d m)"
  assume "\<exists>m. ?P m"
  then obtain m where m: "?P m" ..
  define n where "n = (LEAST m. ?P m)"
  have n: "?P n" unfolding n_def using m by (rule LeastI)
  have least: "\<not> ?P k" if "k < n" for k
    using that not_less_Least unfolding n_def by blast
  have before: "\<forall>k. 1 \<le> k \<and> k < n \<longrightarrow> (\<exists>e. f k = (True, Inl e)) \<and> \<not> d k"
  proof (intro allI impI)
    fix k assume k: "1 \<le> k \<and> k < n"
    then have np: "\<not> (\<exists>v. snd (f k) = Inr v)" "\<not> d k" using least [of k] by auto
    obtain b x where fk: "f k = (b, x)" by (cases "f k")
    have b using again [of k] fk by simp
    moreover obtain e where "x = Inl e" using np(1) fk by (cases x) auto
    ultimately show "(\<exists>e. f k = (True, Inl e)) \<and> \<not> d k" using fk np(2) by simp
  qed
  show "\<exists>y. retryDo d f 1 = Some y"
  proof (cases "\<exists>v. snd (f n) = Inr v")
    case True
    then obtain v where "snd (f n) = Inr v" ..
    with n before have "retryDo d f 1 = Some (Inr v, n)"
      by (intro retryDo_fail_then_answer) auto
    then show ?thesis by blast
  next
    case False
    obtain b x where fn: "f n = (b, x)" by (cases "f n")
    have b using again [of n] fn by simp
    moreover obtain e where "x = Inl e" using False fn by (cases x) auto
    ultimately have last: "f n = (True, Inl e)" using fn by simp
    have dn: "d n" using n False by blast
    have "\<forall>k. 1 \<le> k \<and> k \<le> n \<longrightarrow> (\<exists>e. f k = (True, Inl e))"
      using before last by (metis le_neq_implies_less)
    with n before dn have "retryDo d f 1 = Some (Inl ContextCancelled, n)"
      by (intro retryDo_fail_then_cancel) auto
    then show ?thesis by blast
  qed
qed

lemma ListTransactions_answers:
  "(\<exists>rows. ListTransactions st tf = Inr rows) \<longleftrightarrow> (\<exists>db. st = StoreRows db)"
  by (cases st) (simp_all add: ListTransactions_def)

lemma poll_free_returns:
  assumes free: "int (length (survivors ble (timeNow env))) < maxInFlightOrchestrators ble"
  shows "(\<exists>r. poll ble env = Some r)
           \<longleftrightarrow> (\<exists>m. 1 \<le> m \<and> ((\<exists>db. txStoreAt env m = StoreRows db) \<or> ctxDoneAfter env m))"
proof -
  let ?f = "\<lambda>attempt. (True, ListTransactions (txStoreAt env attempt) (pollQuery ble (timeNow env)))"
  have "(\<exists>r. poll ble env = Some r) \<longleftrightarrow> (\<exists>y. retryDo (ctxDoneAfter env) ?f 1 = Some y)"
    unfolding poll_free [OF free]
    by (cases "retryDo (ctxDoneAfter env) ?f 1") (auto split: prod.splits sum.splits)
  also have "\<dots> \<longleftrightarrow> (\<exists>m. 1 \<le> m \<and> ((\<exists>v. snd (?f m) = Inr v) \<or> ctxDoneAfter env m))"
    by (rule retryDo_returns_iff) simp
  also have "\<dots> \<longleftrightarrow> (\<exists>m. 1 \<le> m \<and> ((\<exists>db. txStoreAt env m = StoreRows db) \<or> ctxDoneAfter env m))"
    by (simp add: ListTransactions_answers)
  finally show ?thesis .
qed

lemma retryDelay_default:
  "retryDelay \<lparr>initialDelay = 250, maxDelay = 30000, factor = 2\<rparr> (Suc i) = min (250 * 2 ^ i) 30000"
  by (simp add: retryDelay_def)

lemma NewRetryIndefinite_default:
  "NewRetryIndefinite (Retry DefaultTransactionEngineConfig)
     = Some \<lparr>initialDelay = 250, maxDelay = 30000, factor = 2\<rparr>"
  by (simp add: NewRetryIndefinite_def DefaultTransactionEngineConfig_def parseDuration_def
        digitValue_def unitMillis_def)

lemmas sample_defs = sampleEngine_def sampleEnv_def sampleOc_def sampleTx_def

lemmas poll_eval = poll_def Stop_def MarkInFlightTxStale_def Start_def NewOrchestrator_def
  ListTransactions_def matchesQuery_def sortRows_def limitRows_def
  retryDo_success retryDo_cancelled retryDo_again retryDelay_def Let_def

lemma survivors_sample:
  "survivors (sampleEngine m) 1000 =
     [(''0xA'', (sampleOc ''0xA'' OrchestratorStateRunning 0 0)\<lparr>inFlightTxStale := True\<rparr>),
      (''0xB'', (sampleOc ''0xB'' OrchestratorStateRunning 500 500)\<lparr>inFlightTxStale := True\<rparr>)]"
  by (simp add: survivors_def sample_defs Stop_def MarkInFlightTxStale_def)

lemma sample_poll_answer:
  "map_option (\<lambda>r. (polled r, total_ret r, map fst (InFlightOrchestrators (engine r)), queries r, waits r))
     (poll (sampleEngine 4) (sampleEnv 0 False))
   = Some (1, 3, [''0xA'', ''0xB'', ''0xD''],
       [\<lparr>InStatus = [PubTxStatusPending], Sort = Some ''sequence'', Limit = Some 2,
         NotFrom = [''0xA'', ''0xB'', ''0xC''], From_query = None\<rparr>], [])"
  by (simp add: sample_defs poll_eval)

lemma sample_poll_metrics:
  "map_option (\<lambda>r. map_option (\<lambda>(cnt, fr). (cnt OrchestratorStatePaused, fr)) (metrics r))
     (poll (sampleEngine 4) (sampleEnv 0 False))
   = Some (Some (1, 1))"
  by (simp add: sample_defs poll_eval)

lemma sample_timeNow: "timeNow (sampleEnv k c) = 1000"
  by (simp add: sampleEnv_def)

lemma sample_max: "maxInFlightOrchestrators (sampleEngine m) = m"
  by (simp add: sampleEngine_def)

subsection \<open>The pool bound\<close>

text \<open>
  Claim C1, as amended. After every completion of \<^verbatim>\<open>poll\<close> that starts with at most
  \<^verbatim>\<open>maxInFlightOrchestrators\<close> surviving (not Stopped) orchestrators, and so in
  particular whenever the bound held before the tick, the new map holds at most
  \<^verbatim>\<open>maxInFlightOrchestrators\<close> orchestrators, under pairwise distinct signing
  addresses. The store is queried only when the free slots, \<^verbatim>\<open>maxInFlightOrchestrators\<close>
  minus the number of survivors, are positive, and every query carries that number as
  its limit. A starting map with more survivors than the bound is left over the bound:
  \<^verbatim>\<open>poll\<close> has no step that shrinks the pool (the sample engine with two running
  orchestrators and bound 1 keeps both).
\<close>

theorem poll_pool_bound:
  assumes some: "poll ble env = Some r"
    and bound: "int (length (survivors ble (timeNow env))) \<le> maxInFlightOrchestrators ble
              \<or> int (length (InFlightOrchestrators ble)) \<le> maxInFlightOrchestrators ble"
  shows "int (length (InFlightOrchestrators (engine r))) \<le> maxInFlightOrchestrators ble
       \<and> distinct (map fst (InFlightOrchestrators (engine r)))
       \<and> (queries r \<noteq> [] \<longrightarrow>
            int (length (survivors ble (timeNow env))) < maxInFlightOrchestrators ble)
       \<and> (\<forall>q \<in> set (queries r).
            Limit q = Some (maxInFlightOrchestrators ble
                              - int (length (survivors ble (timeNow env)))))"
proof -
  have inv: "int (length (survivors ble (timeNow env))) \<le> maxInFlightOrchestrators ble"
    using bound survivors_length [of ble "timeNow env"] by linarith
  show ?thesis
  proof (cases "int (length (survivors ble (timeNow env))) < maxInFlightOrchestrators ble")
    case False
    then have full: "maxInFlightOrchestrators ble \<le> int (length (survivors ble (timeNow env)))"
      by simp
    have r: "InFlightOrchestrators (engine r) = fst (pollEvicted ble (timeNow env))" "queries r = []"
      using some poll_full [OF full] by auto
    show ?thesis
      using r inv pollEvicted_length [of ble "timeNow env"] pollEvicted_keys [of ble "timeNow env"]
        survivors_distinct [of ble "timeNow env"]
      by simp
  next
    case True
    let ?q = "pollQuery ble (timeNow env)"
    have lim: "Limit ?q = Some (maxInFlightOrchestrators ble - int (length (survivors ble (timeNow env))))"
      by (simp add: pollQuery_def)
    from poll_free_cases [OF True some] show ?thesis
    proof (elim disjE exE conjE)
      fix n
      assume "r = \<lparr>polled = - 1,
                       total_ret = int (length (survivors ble (timeNow env))),
                       engine = ble\<lparr>InFlightOrchestrators := survivors ble (timeNow env)\<rparr>,
                       queries = replicate n ?q,
                       waits = map (retryDelay (retry ble)) [1..<Suc n],
                       metrics = None\<rparr>"
      then show ?thesis using True lim survivors_distinct [of ble "timeNow env"] by simp
    next
      fix n rows
      assume rows: "ListTransactions (txStoreAt env n) ?q = Inr rows"
      assume r: "r = \<lparr>polled =
                         (if int (length (fst (pollCreated ble (timeNow env) rows))) > 0
                          then int (length (fst (pollCreated ble (timeNow env) rows)))
                               - int (length (survivors ble (timeNow env)))
                          else 0),
                       total_ret = int (length (fst (pollCreated ble (timeNow env) rows))),
                       engine = ble\<lparr>InFlightOrchestrators := fst (pollCreated ble (timeNow env) rows)\<rparr>,
                       queries = replicate n ?q,
                       waits = map (retryDelay (retry ble)) [1..<n],
                       metrics = Some (snd (pollCreated ble (timeNow env) rows),
                         maxInFlightOrchestrators ble
                           - int (length (fst (pollCreated ble (timeNow env) rows))))\<rparr>"
      have "int (length (fst (pollCreated ble (timeNow env) rows)))
              \<le> int (length (survivors ble (timeNow env))) + int (length rows)"
        using pollCreated_length [of ble "timeNow env" rows] by linarith
      then have "int (length (fst (pollCreated ble (timeNow env) rows))) \<le> maxInFlightOrchestrators ble"
        using poll_rows_limit [OF rows] True by linarith
      then show ?thesis using r True lim pollCreated_distinct [of ble "timeNow env" rows] by simp
    qed
  qed
qed

theorem poll_pool_bound_counterexample:
  "map_option (length \<circ> InFlightOrchestrators \<circ> engine) (poll (sampleEngine 1) (sampleEnv 0 False))
     = Some 2
   \<and> maxInFlightOrchestrators (sampleEngine 1) = 1"
  by (simp add: sample_defs poll_eval)

theorem poll_pool_bound_witness:
  "\<exists>r. poll (sampleEngine 4) (sampleEnv 0 False) = Some r
     \<and> int (length (survivors (sampleEngine 4) 1000)) \<le> 4
     \<and> int (length (InFlightOrchestrators (engine r))) \<le> 4
     \<and> distinct (map fst (InFlightOrchestrators (engine r)))
     \<and> queries r \<noteq> []
     \<and> int (length (survivors (sampleEngine 4) 1000)) < 4"
proof -
  obtain r where r: "poll (sampleEngine 4) (sampleEnv 0 False) = Some r"
    and q: "queries r \<noteq> []"
    using sample_poll_answer by auto
  have inv: "int (length (survivors (sampleEngine 4) (timeNow (sampleEnv 0 False))))
               \<le> maxInFlightOrchestrators (sampleEngine 4)
             \<or> int (length (InFlightOrchestrators (sampleEngine 4)))
               \<le> maxInFlightOrchestrators (sampleEngine 4)"
    by (simp add: sample_timeNow sample_max survivors_sample)
  from poll_pool_bound [OF r inv] q r show ?thesis
    by (simp add: sample_timeNow sample_max survivors_sample)
qed

subsection \<open>Fairness eviction\<close>

text \<open>
  Claim C2. In a tick with no free slot (the survivors number at least
  \<^verbatim>\<open>maxInFlightOrchestrators\<close>) \<^verbatim>\<open>poll\<close> returns, issues no store query, keeps the
  survivors' signing addresses in the map, and for every survivor born more than
  \<^verbatim>\<open>maxOverloadProcessTime\<close> before the tick it calls \<^verbatim>\<open>Stop\<close> on the orchestrator (the
  map holds it with the stop requested) and enters its signing address into the pause
  table with the instant now + \<^verbatim>\<open>maxOverloadProcessTime\<close>.
\<close>

theorem poll_fairness_eviction:
  assumes full: "maxInFlightOrchestrators ble \<le> int (length (survivors ble (timeNow env)))"
  shows "\<exists>r. poll ble env = Some r
       \<and> queries r = []
       \<and> map fst (InFlightOrchestrators (engine r)) = map fst (survivors ble (timeNow env))
       \<and> (\<forall>(a, oc) \<in> set (survivors ble (timeNow env)).
            timeNow env - orchestratorBirthTime oc > maxOverloadProcessTime ble \<longrightarrow>
              map_of (InFlightOrchestrators (engine r)) a = Some (Stop oc)
              \<and> stopRequested (Stop oc)
              \<and> map_of (SigningAddressesPausedUntil (engine r)) a
                  = Some (timeNow env + maxOverloadProcessTime ble))"
proof -
  let ?t = "timeNow env"
  let ?r = "\<lparr>polled = 0, total_ret = 0,
           engine = ble\<lparr>InFlightOrchestrators := fst (pollEvicted ble ?t),
                        SigningAddressesPausedUntil := snd (pollEvicted ble ?t)\<rparr>,
           queries = [], waits = [],
           metrics = Some (reapCounts ble ?t,
             maxInFlightOrchestrators ble - int (length (fst (pollEvicted ble ?t))))\<rparr>"
  have p: "poll ble env = Some ?r" using full by (rule poll_full)
  have e: "map_of (fst (pollEvicted ble ?t)) a = Some (Stop oc)
         \<and> map_of (snd (pollEvicted ble ?t)) a = Some (?t + maxOverloadProcessTime ble)"
    if "(a, oc) \<in> set (survivors ble ?t)"
      and "?t - orchestratorBirthTime oc > maxOverloadProcessTime ble" for a oc
    unfolding pollEvicted_def
    using survivors_distinct [of ble ?t] that by (rule evictLoop_evicted)
  have "\<forall>(a, oc) \<in> set (survivors ble ?t).
            ?t - orchestratorBirthTime oc > maxOverloadProcessTime ble \<longrightarrow>
              map_of (InFlightOrchestrators (engine ?r)) a = Some (Stop oc)
              \<and> stopRequested (Stop oc)
              \<and> map_of (SigningAddressesPausedUntil (engine ?r)) a
                  = Some (?t + maxOverloadProcessTime ble)"
    using e by (auto simp: Stop_def)
  moreover have "map fst (InFlightOrchestrators (engine ?r)) = map fst (survivors ble ?t)"
    by (simp add: pollEvicted_keys)
  moreover have "queries ?r = []" by simp
  ultimately show ?thesis using p by blast
qed

theorem poll_fairness_eviction_witness:
  "\<exists>r. poll (sampleEngine 2) (sampleEnv 0 False) = Some r
     \<and> queries r = []
     \<and> map fst (InFlightOrchestrators (engine r)) = [''0xA'', ''0xB'']
     \<and> map_of (InFlightOrchestrators (engine r)) ''0xA''
          = Some ((sampleOc ''0xA'' OrchestratorStateRunning 0 0)
                    \<lparr>stopRequested := True, inFlightTxStale := True\<rparr>)
     \<and> map_of (SigningAddressesPausedUntil (engine r)) ''0xA'' = Some 1600"
proof -
  have full: "maxInFlightOrchestrators (sampleEngine 2)
                \<le> int (length (survivors (sampleEngine 2) (timeNow (sampleEnv 0 False))))"
    by (simp add: sample_timeNow sample_max survivors_sample)
  from poll_fairness_eviction [OF full] obtain r where
    r: "poll (sampleEngine 2) (sampleEnv 0 False) = Some r" "queries r = []"
       "map fst (InFlightOrchestrators (engine r)) = map fst (survivors (sampleEngine 2) 1000)"
    and ev: "\<forall>(a, oc) \<in> set (survivors (sampleEngine 2) 1000).
            1000 - orchestratorBirthTime oc > maxOverloadProcessTime (sampleEngine 2) \<longrightarrow>
              map_of (InFlightOrchestrators (engine r)) a = Some (Stop oc)
              \<and> stopRequested (Stop oc)
              \<and> map_of (SigningAddressesPausedUntil (engine r)) a
                  = Some (1000 + maxOverloadProcessTime (sampleEngine 2))"
    unfolding sample_timeNow by blast
  have mo: "maxOverloadProcessTime (sampleEngine 2) = 600" by (simp add: sampleEngine_def)
  from ev have "map_of (InFlightOrchestrators (engine r)) ''0xA''
          = Some ((sampleOc ''0xA'' OrchestratorStateRunning 0 0)
                    \<lparr>stopRequested := True, inFlightTxStale := True\<rparr>)
     \<and> map_of (SigningAddressesPausedUntil (engine r)) ''0xA'' = Some 1600"
    unfolding survivors_sample mo by (simp add: sampleOc_def Stop_def)
  then show ?thesis using r by (simp add: survivors_sample)
qed

subsection \<open>The capacity phase\<close>

text \<open>
  Claim C5. In a tick with free slots, \<^verbatim>\<open>poll\<close> returns exactly when, at some attempt,
  the store answers or the context is cancelled during the wait that follows; against a
  store that fails at every attempt, with no cancellation, the retry never ends. Whenever
  it returns, every store query it issued has status Pending, sort key \<^verbatim>\<open>sequence\<close>
  (ascending creation sequence), the free slots as limit, and as \<^verbatim>\<open>NotFrom\<close> a list whose
  elements are exactly the survivors' signing addresses and the addresses of the pause
  table whose instant is still in the future. When the metrics are published, the Paused
  count is the count the reap loop left plus one for every still-paused entry. No
  orchestrator is created for an excluded signer that is not in flight. A pending
  transaction of a signer outside that list (so of a signer whose pause has passed and
  who is not in flight) matches the query.
\<close>

theorem poll_capacity_phase:
  assumes free: "int (length (survivors ble (timeNow env))) < maxInFlightOrchestrators ble"
  shows "\<exists>nf.
         set nf = fst ` set (survivors ble (timeNow env))
                    \<union> {a. \<exists>u. (a, u) \<in> set (SigningAddressesPausedUntil ble) \<and> timeNow env < u}
       \<and> ((\<exists>r. poll ble env = Some r)
            \<longleftrightarrow> (\<exists>m. 1 \<le> m
                    \<and> ((\<exists>db. txStoreAt env m = StoreRows db) \<or> ctxDoneAfter env m)))
       \<and> (\<forall>r. poll ble env = Some r \<longrightarrow>
            (\<exists>n. 1 \<le> n
               \<and> queries r =
                   replicate n
                     \<lparr>InStatus = [PubTxStatusPending], Sort = Some ''sequence'',
                      Limit = Some (maxInFlightOrchestrators ble
                                      - int (length (survivors ble (timeNow env)))),
                      NotFrom = nf, From_query = None\<rparr>
               \<and> (\<forall>cnt fr. metrics r = Some (cnt, fr) \<longrightarrow>
                    cnt OrchestratorStatePaused
                      = reapCounts ble (timeNow env) OrchestratorStatePaused
                        + int (length (filter (\<lambda>(a, u). timeNow env < u)
                                         (SigningAddressesPausedUntil ble))))
               \<and> (\<forall>a \<in> set nf. a \<notin> fst ` set (survivors ble (timeNow env)) \<longrightarrow>
                    a \<notin> fst ` set (InFlightOrchestrators (engine r)))))
       \<and> (\<forall>tx. Status tx = PubTxStatusPending \<and> From tx \<notin> set nf \<longrightarrow>
            matchesQuery \<lparr>InStatus = [PubTxStatusPending], Sort = Some ''sequence'',
              Limit = Some (maxInFlightOrchestrators ble
                              - int (length (survivors ble (timeNow env)))),
              NotFrom = nf, From_query = None\<rparr> tx)"
proof -
  let ?t = "timeNow env"
  let ?q = "pollQuery ble ?t"
  let ?nf = "NotFrom ?q"
  have q: "?q = \<lparr>InStatus = [PubTxStatusPending], Sort = Some ''sequence'',
              Limit = Some (maxInFlightOrchestrators ble - int (length (survivors ble ?t))),
              NotFrom = ?nf, From_query = None\<rparr>"
    by (simp add: pollQuery_def)
  have m: "\<forall>tx. Status tx = PubTxStatusPending \<and> From tx \<notin> set ?nf \<longrightarrow> matchesQuery ?q tx"
    by (simp add: matchesQuery_def pollQuery_def)
  have main: "\<exists>n. 1 \<le> n \<and> queries r = replicate n ?q
       \<and> (\<forall>cnt fr. metrics r = Some (cnt, fr) \<longrightarrow>
            cnt OrchestratorStatePaused
              = reapCounts ble ?t OrchestratorStatePaused
                + int (length (filter (\<lambda>(a, u). ?t < u) (SigningAddressesPausedUntil ble))))
       \<and> (\<forall>a \<in> set ?nf. a \<notin> fst ` set (survivors ble ?t) \<longrightarrow>
            a \<notin> fst ` set (InFlightOrchestrators (engine r)))"
    if some: "poll ble env = Some r" for r
    using poll_free_cases [OF free some]
  proof (elim disjE exE conjE)
    fix n :: nat
    assume "1 \<le> n" and "r = \<lparr>polled = - 1,
                     total_ret = int (length (survivors ble ?t)),
                     engine = ble\<lparr>InFlightOrchestrators := survivors ble ?t\<rparr>,
                     queries = replicate n ?q,
                     waits = map (retryDelay (retry ble)) [1..<Suc n],
                     metrics = None\<rparr>"
    then show ?thesis by auto
  next
    fix n :: nat and rows
    assume n: "1 \<le> n"
    assume rows: "ListTransactions (txStoreAt env n) ?q = Inr rows"
    assume r: "r = \<lparr>polled =
                       (if int (length (fst (pollCreated ble ?t rows))) > 0
                        then int (length (fst (pollCreated ble ?t rows)))
                             - int (length (survivors ble ?t))
                        else 0),
                     total_ret = int (length (fst (pollCreated ble ?t rows))),
                     engine = ble\<lparr>InFlightOrchestrators := fst (pollCreated ble ?t rows)\<rparr>,
                     queries = replicate n ?q,
                     waits = map (retryDelay (retry ble)) [1..<n],
                     metrics = Some (snd (pollCreated ble ?t rows),
                       maxInFlightOrchestrators ble
                         - int (length (fst (pollCreated ble ?t rows))))\<rparr>"
    have "From ` set rows \<inter> set ?nf = {}"
      using ListTransactions_matches [OF rows] by (auto simp: matchesQuery_def)
    then have k: "\<forall>a \<in> set ?nf. a \<notin> fst ` set (survivors ble ?t) \<longrightarrow>
            a \<notin> fst ` set (InFlightOrchestrators (engine r))"
      using r by (auto simp: pollCreated_keys)
    have c: "\<forall>cnt fr. metrics r = Some (cnt, fr) \<longrightarrow>
            cnt OrchestratorStatePaused
              = reapCounts ble ?t OrchestratorStatePaused
                + int (length (filter (\<lambda>(a, u). ?t < u) (SigningAddressesPausedUntil ble)))"
      using r by (simp add: pollCreated_counts pausedCounts_def stillPaused_def)
    show ?thesis using n r k c by auto
  qed
  have every: "\<forall>r. poll ble env = Some r \<longrightarrow>
       (\<exists>n. 1 \<le> n \<and> queries r = replicate n ?q
       \<and> (\<forall>cnt fr. metrics r = Some (cnt, fr) \<longrightarrow>
            cnt OrchestratorStatePaused
              = reapCounts ble ?t OrchestratorStatePaused
                + int (length (filter (\<lambda>(a, u). ?t < u) (SigningAddressesPausedUntil ble))))
       \<and> (\<forall>a \<in> set ?nf. a \<notin> fst ` set (survivors ble ?t) \<longrightarrow>
            a \<notin> fst ` set (InFlightOrchestrators (engine r))))"
    using main by blast
  show ?thesis
    apply (rule exI [of _ ?nf])
    apply (intro conjI)
       apply (rule pollQuery_NotFrom)
      apply (rule poll_free_returns [OF free])
     apply (simp only: q [symmetric])
     apply (rule every)
    apply (simp only: q [symmetric])
    apply (rule m)
    done
qed

theorem poll_capacity_phase_witness:
  "(\<exists>r. poll (sampleEngine 4) (sampleEnv 0 False) = Some r
     \<and> (\<exists>n nf. 1 \<le> n
          \<and> queries r = replicate n
                \<lparr>InStatus = [PubTxStatusPending], Sort = Some ''sequence'', Limit = Some 2,
                 NotFrom = nf, From_query = None\<rparr>
          \<and> ''0xA'' \<in> set nf \<and> ''0xC'' \<in> set nf \<and> ''0xD'' \<notin> set nf
          \<and> ''0xC'' \<notin> fst ` set (InFlightOrchestrators (engine r))
          \<and> matchesQuery
                \<lparr>InStatus = [PubTxStatusPending], Sort = Some ''sequence'', Limit = Some 2,
                 NotFrom = nf, From_query = None\<rparr>
                (sampleTx ''0xD'' 1 PubTxStatusPending 2))
     \<and> (\<exists>cnt fr. metrics r = Some (cnt, fr) \<and> cnt OrchestratorStatePaused = 1))
   \<and> poll (sampleEngine 4)
        \<lparr>timeNow = 1000, txStoreAt = (\<lambda>attempt. StoreFailing ''db down''),
         ctxDoneAfter = (\<lambda>attempt. False)\<rparr> = None"
proof -
  let ?down = "\<lparr>timeNow = 1000, txStoreAt = (\<lambda>attempt. StoreFailing ''db down''),
                ctxDoneAfter = (\<lambda>attempt::nat. False)\<rparr>"
  have free: "int (length (survivors (sampleEngine 4) (timeNow (sampleEnv 0 False))))
               < maxInFlightOrchestrators (sampleEngine 4)"
    by (simp add: sample_timeNow sample_max survivors_sample)
  have free': "int (length (survivors (sampleEngine 4) (timeNow ?down)))
               < maxInFlightOrchestrators (sampleEngine 4)"
    by (simp add: sample_max survivors_sample)
  let ?Q = "\<lambda>nf. \<lparr>InStatus = [PubTxStatusPending], Sort = Some ''sequence'',
              Limit = Some (maxInFlightOrchestrators (sampleEngine 4)
                              - int (length (survivors (sampleEngine 4) 1000))),
              NotFrom = nf, From_query = None\<rparr>"
  let ?R = "\<lambda>env. (\<exists>r. poll (sampleEngine 4) env = Some r)
            \<longleftrightarrow> (\<exists>m. 1 \<le> m
                    \<and> ((\<exists>db. txStoreAt env m = StoreRows db) \<or> ctxDoneAfter env m))"
  let ?E = "\<lambda>nf r. \<exists>n. 1 \<le> n
               \<and> queries r = replicate n (?Q nf)
               \<and> (\<forall>cnt fr. metrics r = Some (cnt, fr) \<longrightarrow>
                    cnt OrchestratorStatePaused
                      = reapCounts (sampleEngine 4) 1000 OrchestratorStatePaused
                        + int (length (filter (\<lambda>(a, u). 1000 < u)
                                         (SigningAddressesPausedUntil (sampleEngine 4)))))
               \<and> (\<forall>a \<in> set nf. a \<notin> fst ` set (survivors (sampleEngine 4) 1000) \<longrightarrow>
                    a \<notin> fst ` set (InFlightOrchestrators (engine r)))"
  let ?S = "\<lambda>nf. set nf = fst ` set (survivors (sampleEngine 4) 1000)
                    \<union> {a. \<exists>u. (a, u) \<in> set (SigningAddressesPausedUntil (sampleEngine 4)) \<and> 1000 < u}"
  let ?M = "\<lambda>nf. \<forall>tx. Status tx = PubTxStatusPending \<and> From tx \<notin> set nf \<longrightarrow>
            matchesQuery (?Q nf) tx"
  have "\<exists>nf. ?S nf \<and> ?R (sampleEnv 0 False)
          \<and> (\<forall>r. poll (sampleEngine 4) (sampleEnv 0 False) = Some r \<longrightarrow> ?E nf r) \<and> ?M nf"
    using poll_capacity_phase [OF free] unfolding sample_timeNow .
  then obtain nf where nf: "?S nf" and ret: "?R (sampleEnv 0 False)"
    and every: "\<forall>r. poll (sampleEngine 4) (sampleEnv 0 False) = Some r \<longrightarrow> ?E nf r"
    and m: "?M nf"
    by (elim exE conjE)
  have "1 \<le> (1::nat) \<and> ((\<exists>db. txStoreAt (sampleEnv 0 False) 1 = StoreRows db)
          \<or> ctxDoneAfter (sampleEnv 0 False) 1)"
    by (simp add: sampleEnv_def)
  then have "\<exists>m. 1 \<le> m \<and> ((\<exists>db. txStoreAt (sampleEnv 0 False) m = StoreRows db)
          \<or> ctxDoneAfter (sampleEnv 0 False) m)" ..
  with ret have "\<exists>r. poll (sampleEngine 4) (sampleEnv 0 False) = Some r" by (rule iffD2)
  then obtain r where r: "poll (sampleEngine 4) (sampleEnv 0 False) = Some r" ..
  from every r have "?E nf r" by (elim allE impE)
  then obtain n where n: "1 \<le> n" and q: "queries r = replicate n (?Q nf)"
    and np: "\<forall>a \<in> set nf. a \<notin> fst ` set (survivors (sampleEngine 4) 1000) \<longrightarrow>
                    a \<notin> fst ` set (InFlightOrchestrators (engine r))"
    by (elim exE conjE)
  have l: "maxInFlightOrchestrators (sampleEngine 4)
             - int (length (survivors (sampleEngine 4) 1000)) = 2"
    by (simp add: sample_max survivors_sample)
  have pt: "SigningAddressesPausedUntil (sampleEngine 4) = [(''0xC'', 5000), (''0xD'', 900)]"
    by (simp add: sampleEngine_def)
  have mem: "''0xA'' \<in> set nf" "''0xC'' \<in> set nf" "''0xD'' \<notin> set nf"
    unfolding nf survivors_sample pt by simp_all
  have c: "''0xC'' \<notin> fst ` set (InFlightOrchestrators (engine r))"
    using np mem(2) by (auto simp: survivors_sample)
  have d: "matchesQuery \<lparr>InStatus = [PubTxStatusPending], Sort = Some ''sequence'',
              Limit = Some 2, NotFrom = nf, From_query = None\<rparr>
             (sampleTx ''0xD'' 1 PubTxStatusPending 2)"
    using m mem(3) unfolding l by (simp add: sampleTx_def)
  have e: "\<exists>cnt fr. metrics r = Some (cnt, fr) \<and> cnt OrchestratorStatePaused = 1"
    using sample_poll_metrics unfolding r by (cases "metrics r") auto
  have first: "1 \<le> n
          \<and> queries r = replicate n
                \<lparr>InStatus = [PubTxStatusPending], Sort = Some ''sequence'', Limit = Some 2,
                 NotFrom = nf, From_query = None\<rparr>
          \<and> ''0xA'' \<in> set nf \<and> ''0xC'' \<in> set nf \<and> ''0xD'' \<notin> set nf
          \<and> ''0xC'' \<notin> fst ` set (InFlightOrchestrators (engine r))
          \<and> matchesQuery
                \<lparr>InStatus = [PubTxStatusPending], Sort = Some ''sequence'', Limit = Some 2,
                 NotFrom = nf, From_query = None\<rparr>
                (sampleTx ''0xD'' 1 PubTxStatusPending 2)"
    using n q mem c d unfolding l by (intro conjI)
  have "\<exists>nf. set nf = fst ` set (survivors (sampleEngine 4) (timeNow ?down))
                    \<union> {a. \<exists>u. (a, u) \<in> set (SigningAddressesPausedUntil (sampleEngine 4))
                              \<and> timeNow ?down < u}
          \<and> ?R ?down
          \<and> (\<forall>r. poll (sampleEngine 4) ?down = Some r \<longrightarrow>
            (\<exists>n. 1 \<le> n
               \<and> queries r =
                   replicate n
                     \<lparr>InStatus = [PubTxStatusPending], Sort = Some ''sequence'',
                      Limit = Some (maxInFlightOrchestrators (sampleEngine 4)
                                      - int (length (survivors (sampleEngine 4) (timeNow ?down)))),
                      NotFrom = nf, From_query = None\<rparr>
               \<and> (\<forall>cnt fr. metrics r = Some (cnt, fr) \<longrightarrow>
                    cnt OrchestratorStatePaused
                      = reapCounts (sampleEngine 4) (timeNow ?down) OrchestratorStatePaused
                        + int (length (filter (\<lambda>(a, u). timeNow ?down < u)
                                         (SigningAddressesPausedUntil (sampleEngine 4)))))
               \<and> (\<forall>a \<in> set nf. a \<notin> fst ` set (survivors (sampleEngine 4) (timeNow ?down)) \<longrightarrow>
                    a \<notin> fst ` set (InFlightOrchestrators (engine r)))))
          \<and> (\<forall>tx. Status tx = PubTxStatusPending \<and> From tx \<notin> set nf \<longrightarrow>
            matchesQuery \<lparr>InStatus = [PubTxStatusPending], Sort = Some ''sequence'',
              Limit = Some (maxInFlightOrchestrators (sampleEngine 4)
                              - int (length (survivors (sampleEngine 4) (timeNow ?down)))),
              NotFrom = nf, From_query = None\<rparr> tx)"
    by (rule poll_capacity_phase [OF free'])
  then have ret': "?R ?down" by (elim exE conjE)
  have "\<not> (\<exists>r. poll (sampleEngine 4) ?down = Some r)"
    unfolding ret' by simp
  then have second: "poll (sampleEngine 4) ?down = None"
    by (cases "poll (sampleEngine 4) ?down") (simp, blast)
  show ?thesis
    apply (rule conjI)
     apply (rule exI [of _ r])
     apply (intro conjI)
       apply (rule r)
      apply (rule exI [of _ n])
      apply (rule exI [of _ nf])
      apply (rule first)
     apply (rule e)
    apply (rule second)
    done
qed

subsection \<open>Retrying the store query\<close>

text \<open>
  Claim C7. In a tick with free slots the callback given to the retry helper always asks
  for another attempt, so: if the store fails at attempts 1 to n and the context is
  cancelled during the wait after attempt n (and not before), \<^verbatim>\<open>poll\<close> returns -1 as
  the polled count, the survivor count as total, the survivors as the map (no orchestrator
  is created) and publishes no metrics, after n queries; if the store fails at the
  attempts before n with no cancellation and answers at attempt n, \<^verbatim>\<open>poll\<close> returns
  with a polled count of at least 0 after n queries, whatever n is; a polled count of
  -1 arises only with a cancelled context; and with the retry helper built from the
  default configuration the i-th wait (from 0) is 250 ms times 2 to the i, capped at
  30 s.
\<close>

theorem poll_store_retry:
  assumes free: "int (length (survivors ble (timeNow env))) < maxInFlightOrchestrators ble"
  shows "(\<forall>n. 1 \<le> n
            \<and> (\<forall>k. 1 \<le> k \<and> k \<le> n \<longrightarrow> (\<exists>e. txStoreAt env k = StoreFailing e))
            \<and> (\<forall>k. 1 \<le> k \<and> k < n \<longrightarrow> \<not> ctxDoneAfter env k)
            \<and> ctxDoneAfter env n
          \<longrightarrow> poll ble env =
                Some \<lparr>polled = - 1,
                      total_ret = int (length (survivors ble (timeNow env))),
                      engine = ble\<lparr>InFlightOrchestrators := survivors ble (timeNow env)\<rparr>,
                      queries = replicate n (pollQuery ble (timeNow env)),
                      waits = map (retryDelay (retry ble)) [1..<Suc n],
                      metrics = None\<rparr>)
       \<and> (\<forall>n db. 1 \<le> n
            \<and> (\<forall>k. 1 \<le> k \<and> k < n \<longrightarrow>
                  (\<exists>e. txStoreAt env k = StoreFailing e) \<and> \<not> ctxDoneAfter env k)
            \<and> txStoreAt env n = StoreRows db
          \<longrightarrow> (\<exists>r. poll ble env = Some r \<and> 0 \<le> polled r
                    \<and> queries r = replicate n (pollQuery ble (timeNow env))
                    \<and> waits r = map (retryDelay (retry ble)) [1..<n]))
       \<and> (\<forall>r. poll ble env = Some r \<and> polled r = - 1
          \<longrightarrow> (\<exists>n. 1 \<le> n \<and> ctxDoneAfter env n
                    \<and> InFlightOrchestrators (engine r) = survivors ble (timeNow env)
                    \<and> total_ret r = int (length (survivors ble (timeNow env)))
                    \<and> metrics r = None))
       \<and> (\<forall>r i. poll ble env = Some r
              \<and> NewRetryIndefinite (Retry DefaultTransactionEngineConfig) = Some (retry ble)
              \<and> i < length (waits r)
          \<longrightarrow> waits r ! i = min (250 * 2 ^ i) 30000)"
proof (intro conjI allI impI)
  let ?t = "timeNow env"
  let ?q = "pollQuery ble ?t"
  let ?f = "\<lambda>attempt. (True, ListTransactions (txStoreAt env attempt) ?q)"
  {
    fix n
    assume a: "1 \<le> n
            \<and> (\<forall>k. 1 \<le> k \<and> k \<le> n \<longrightarrow> (\<exists>e. txStoreAt env k = StoreFailing e))
            \<and> (\<forall>k. 1 \<le> k \<and> k < n \<longrightarrow> \<not> ctxDoneAfter env k)
            \<and> ctxDoneAfter env n"
    have "\<forall>k. 1 \<le> k \<and> k \<le> n \<longrightarrow> (\<exists>e. ?f k = (True, Inl e))"
      using a by (metis ListTransactions_failing)
    then have "retryDo (ctxDoneAfter env) ?f 1 = Some (Inl ContextCancelled, n)"
      using a by (intro retryDo_fail_then_cancel) auto
    then show "poll ble env =
                Some \<lparr>polled = - 1,
                      total_ret = int (length (survivors ble ?t)),
                      engine = ble\<lparr>InFlightOrchestrators := survivors ble ?t\<rparr>,
                      queries = replicate n ?q,
                      waits = map (retryDelay (retry ble)) [1..<Suc n],
                      metrics = None\<rparr>"
      by (simp add: poll_free [OF free])
  }
  {
    fix n db
    assume a: "1 \<le> n
            \<and> (\<forall>k. 1 \<le> k \<and> k < n \<longrightarrow>
                  (\<exists>e. txStoreAt env k = StoreFailing e) \<and> \<not> ctxDoneAfter env k)
            \<and> txStoreAt env n = StoreRows db"
    obtain rows where rows: "ListTransactions (txStoreAt env n) ?q = Inr rows"
      using a by (simp add: ListTransactions_def)
    have "\<forall>k. 1 \<le> k \<and> k < n \<longrightarrow> (\<exists>e. ?f k = (True, Inl e)) \<and> \<not> ctxDoneAfter env k"
      using a by (metis ListTransactions_failing)
    then have rd: "retryDo (ctxDoneAfter env) ?f 1 = Some (Inr rows, n)"
      using a rows by (intro retryDo_fail_then_answer) auto
    have "length (survivors ble ?t) \<le> length (fst (pollCreated ble ?t rows))"
      using pollCreated_keys [of ble ?t rows] survivors_distinct [of ble ?t]
        pollCreated_distinct [of ble ?t rows]
      by (metis Un_upper1 card_mono distinct_card finite_set length_map list.set_map)
    then show "\<exists>r. poll ble env = Some r \<and> 0 \<le> polled r
                    \<and> queries r = replicate n ?q
                    \<and> waits r = map (retryDelay (retry ble)) [1..<n]"
      using rd by (simp add: poll_free [OF free])
  }
  {
    fix r
    assume a: "poll ble env = Some r \<and> polled r = - 1"
    then have some: "poll ble env = Some r" and p: "polled r = - 1" by simp_all
    from poll_free_cases [OF free some]
    show "\<exists>n. 1 \<le> n \<and> ctxDoneAfter env n
                    \<and> InFlightOrchestrators (engine r) = survivors ble ?t
                    \<and> total_ret r = int (length (survivors ble ?t))
                    \<and> metrics r = None"
    proof (elim disjE exE conjE)
      fix n :: nat
      assume "1 \<le> n" "ctxDoneAfter env n" and "r = \<lparr>polled = - 1,
                     total_ret = int (length (survivors ble ?t)),
                     engine = ble\<lparr>InFlightOrchestrators := survivors ble ?t\<rparr>,
                     queries = replicate n ?q,
                     waits = map (retryDelay (retry ble)) [1..<Suc n],
                     metrics = None\<rparr>"
      then show ?thesis by auto
    next
      fix n :: nat and rows
      assume r: "r = \<lparr>polled =
                       (if int (length (fst (pollCreated ble ?t rows))) > 0
                        then int (length (fst (pollCreated ble ?t rows)))
                             - int (length (survivors ble ?t))
                        else 0),
                     total_ret = int (length (fst (pollCreated ble ?t rows))),
                     engine = ble\<lparr>InFlightOrchestrators := fst (pollCreated ble ?t rows)\<rparr>,
                     queries = replicate n ?q,
                     waits = map (retryDelay (retry ble)) [1..<n],
                     metrics = Some (snd (pollCreated ble ?t rows),
                       maxInFlightOrchestrators ble
                         - int (length (fst (pollCreated ble ?t rows))))\<rparr>"
      have "length (survivors ble ?t) \<le> length (fst (pollCreated ble ?t rows))"
        using pollCreated_keys [of ble ?t rows] survivors_distinct [of ble ?t]
          pollCreated_distinct [of ble ?t rows]
        by (metis Un_upper1 card_mono distinct_card finite_set length_map list.set_map)
      then have "0 \<le> polled r" using r by simp
      then show ?thesis using p by simp
    qed
  }
  {
    fix r i
    assume a: "poll ble env = Some r
              \<and> NewRetryIndefinite (Retry DefaultTransactionEngineConfig) = Some (retry ble)
              \<and> i < length (waits r)"
    then have some: "poll ble env = Some r"
      and rt: "retry ble = \<lparr>initialDelay = 250, maxDelay = 30000, factor = 2\<rparr>"
      and i: "i < length (waits r)"
      by (simp_all add: NewRetryIndefinite_default)
    have "\<exists>m. waits r = map (retryDelay (retry ble)) [1..<m]"
      using poll_free_cases [OF free some]
      by (elim disjE exE conjE) (simp_all del: upt_Suc, blast+)
    then obtain m where w: "waits r = map (retryDelay (retry ble)) [1..<m]" by blast
    then have "waits r ! i = retryDelay (retry ble) (Suc i)" using i by simp
    then show "waits r ! i = min (250 * 2 ^ i) 30000"
      using rt by (simp add: retryDelay_default)
  }
qed

theorem poll_store_retry_witness:
  "poll (sampleEngine 4) (sampleEnv 3 True) =
     Some \<lparr>polled = - 1, total_ret = 2,
           engine = (sampleEngine 4)\<lparr>InFlightOrchestrators := survivors (sampleEngine 4) 1000\<rparr>,
           queries = replicate 3 (pollQuery (sampleEngine 4) 1000),
           waits = [250, 500, 1000],
           metrics = None\<rparr>
   \<and> (\<exists>r. poll (sampleEngine 4) (sampleEnv 2 False) = Some r \<and> 0 \<le> polled r
          \<and> queries r = replicate 3 (pollQuery (sampleEngine 4) 1000)
          \<and> waits r = [250, 500])"
proof -
  have free: "int (length (survivors (sampleEngine 4) (timeNow (sampleEnv k c))))
               < maxInFlightOrchestrators (sampleEngine 4)" for k c
    by (simp add: sample_timeNow sample_max survivors_sample)
  have rt: "retry (sampleEngine 4) = \<lparr>initialDelay = 250, maxDelay = 30000, factor = 2\<rparr>"
    by (simp add: sampleEngine_def)
  have a: "1 \<le> (3::nat)
            \<and> (\<forall>k. 1 \<le> k \<and> k \<le> 3 \<longrightarrow> (\<exists>e. txStoreAt (sampleEnv 3 True) k = StoreFailing e))
            \<and> (\<forall>k. 1 \<le> k \<and> k < 3 \<longrightarrow> \<not> ctxDoneAfter (sampleEnv 3 True) k)
            \<and> ctxDoneAfter (sampleEnv 3 True) 3"
    by (simp add: sampleEnv_def)
  have b: "1 \<le> (3::nat)
            \<and> (\<forall>k. 1 \<le> k \<and> k < 3 \<longrightarrow>
                  (\<exists>e. txStoreAt (sampleEnv 2 False) k = StoreFailing e)
                  \<and> \<not> ctxDoneAfter (sampleEnv 2 False) k)
            \<and> txStoreAt (sampleEnv 2 False) 3 = StoreRows [sampleTx ''0xC'' 1 PubTxStatusPending 1,
           sampleTx ''0xD'' 1 PubTxStatusPending 2,
           sampleTx ''0xD'' 2 PubTxStatusPending 3,
           sampleTx ''0xE'' 1 PubTxStatusPending 4,
           sampleTx ''0xA'' 9 PubTxStatusPending 5]"
    by (simp add: sampleEnv_def)
  have w3: "map (retryDelay \<lparr>initialDelay = 250, maxDelay = 30000, factor = 2\<rparr>) [1..<Suc 3]
              = [250, 500, 1000]"
    by (simp add: retryDelay_def eval_nat_numeral)
  have w2: "map (retryDelay \<lparr>initialDelay = 250, maxDelay = 30000, factor = 2\<rparr>) [1..<3]
              = [250, 500]"
    by (simp add: retryDelay_def eval_nat_numeral)
  from poll_store_retry [OF free [of 3 True]] a
  have 1: "poll (sampleEngine 4) (sampleEnv 3 True) =
                Some \<lparr>polled = - 1,
                      total_ret = int (length (survivors (sampleEngine 4) (timeNow (sampleEnv 3 True)))),
                      engine = (sampleEngine 4)\<lparr>InFlightOrchestrators := survivors (sampleEngine 4) (timeNow (sampleEnv 3 True))\<rparr>,
                      queries = replicate 3 (pollQuery (sampleEngine 4) (timeNow (sampleEnv 3 True))),
                      waits = map (retryDelay (retry (sampleEngine 4))) [1..<Suc 3],
                      metrics = None\<rparr>"
    by blast
  from poll_store_retry [OF free [of 2 False]] b
  have 2: "\<exists>r. poll (sampleEngine 4) (sampleEnv 2 False) = Some r \<and> 0 \<le> polled r
                    \<and> queries r = replicate 3 (pollQuery (sampleEngine 4) (timeNow (sampleEnv 2 False)))
                    \<and> waits r = map (retryDelay (retry (sampleEngine 4))) [1..<3]"
    by blast
  have len: "int (length (survivors (sampleEngine 4) 1000)) = 2"
    by (simp add: survivors_sample)
  show ?thesis
    using 1 2 unfolding rt w3 w2 sample_timeNow len by blast
qed

section \<open>Properties of the engine loop\<close>

subsection \<open>The wake signal\<close>

lemma Mark_fields:
  "tickerC (MarkInFlightOrchestratorsStale s) = tickerC s"
  "ctxDone (MarkInFlightOrchestratorsStale s) = ctxDone s"
  "pollCount (MarkInFlightOrchestratorsStale s) = pollCount s"
  "engineLoopDone (MarkInFlightOrchestratorsStale s) = engineLoopDone s"
  by (simp_all add: MarkInFlightOrchestratorsStale_def)

lemma Mark_full:
  "1 \<le> length (InFlightOrchestratorStale s) \<Longrightarrow> MarkInFlightOrchestratorsStale s = s"
  by (cases "InFlightOrchestratorStale s") (simp_all add: MarkInFlightOrchestratorsStale_def)

lemma Mark_queued:
  "length (InFlightOrchestratorStale s) \<le> 1 \<Longrightarrow>
   length (InFlightOrchestratorStale (MarkInFlightOrchestratorsStale s)) = 1"
  by (cases "InFlightOrchestratorStale s") (simp_all add: MarkInFlightOrchestratorsStale_def)

lemma Mark_pow_fields:
  "pollCount ((MarkInFlightOrchestratorsStale ^^ n) s) = pollCount s"
  "engineLoopDone ((MarkInFlightOrchestratorsStale ^^ n) s) = engineLoopDone s"
  by (induction n) (simp_all add: Mark_fields)

lemma Mark_pow_queued:
  "1 \<le> n \<Longrightarrow> length (InFlightOrchestratorStale s) \<le> 1 \<Longrightarrow>
   length (InFlightOrchestratorStale ((MarkInFlightOrchestratorsStale ^^ n) s)) = 1"
proof (induction n)
  case 0
  then show ?case by simp
next
  case (Suc n)
  show ?case
  proof (cases "n = 0")
    case True
    then show ?thesis using Suc.prems by (simp add: Mark_queued)
  next
    case False
    then have "length (InFlightOrchestratorStale ((MarkInFlightOrchestratorsStale ^^ n) s)) = 1"
      using Suc by simp
    then show ?thesis by (simp add: Mark_queued)
  qed
qed

lemma runEvents_append:
  "runEvents (xs @ ys) s = (case runEvents xs s of None \<Rightarrow> None | Some s' \<Rightarrow> runEvents ys s')"
proof (induction xs arbitrary: s)
  case Nil
  then show ?case by simp
next
  case (Cons x xs)
  then show ?case by (cases x) (simp_all split: option.splits)
qed

lemma runEvents_calls:
  "runEvents (replicate n Call) s = Some ((MarkInFlightOrchestratorsStale ^^ n) s)"
proof (induction n arbitrary: s)
  case 0
  then show ?case by simp
next
  case (Suc n)
  show ?case by (simp add: Suc.IH funpow_swap1)
qed

lemma tickerFires_stale:
  "InFlightOrchestratorStale (tickerFires s) = InFlightOrchestratorStale s"
  by (simp add: tickerFires_def)

lemma engineLoopIteration_stale:
  "engineLoopIteration c s = Some s' \<Longrightarrow>
   length (InFlightOrchestratorStale s') \<le> length (InFlightOrchestratorStale s)"
  by (auto simp: engineLoopIteration_def split: if_splits selectCase.splits list.splits)

lemma runEvents_buffer:
  "runEvents es s = Some s' \<Longrightarrow> length (InFlightOrchestratorStale s) \<le> 1 \<Longrightarrow>
   length (InFlightOrchestratorStale s') \<le> 1"
proof (induction es arbitrary: s)
  case Nil
  then show ?case by simp
next
  case (Cons e es)
  show ?case
  proof (cases e)
    case Call
    have "length (InFlightOrchestratorStale (MarkInFlightOrchestratorsStale s)) \<le> 1"
      using Cons.prems(2) by (simp add: Mark_queued)
    then show ?thesis using Cons Call by simp
  next
    case Tick
    then show ?thesis using Cons by (simp add: tickerFires_stale)
  next
    case Cancel
    then show ?thesis using Cons by simp
  next
    case (Loop c)
    then obtain s1 where s1: "engineLoopIteration c s = Some s1" "runEvents es s1 = Some s'"
      using Cons.prems(1) by (auto split: option.splits)
    have "length (InFlightOrchestratorStale s1) \<le> 1"
      using engineLoopIteration_stale [OF s1(1)] Cons.prems(2) by simp
    then show ?thesis using Cons.IH s1(2) by blast
  qed
qed

text \<open>
  Claim C6, as amended. \<^verbatim>\<open>MarkInFlightOrchestratorsStale\<close> never blocks, and with a
  signal already in the buffer it has no effect, so at most one signal is queued at any
  time. For every n of at least 1, n calls with no receive of the engine loop between
  them leave exactly one signal queued, and the loop then makes exactly one poll for
  them: after that poll the buffer is empty and the stale case of the select is not
  ready. Calls separated by a receive of the loop are not coalesced: each queues its own
  signal (a call, a poll, a second call and a second poll, with no tick at all, are two
  extra polls).
\<close>

theorem MarkInFlightOrchestratorsStale_coalesces:
  assumes n: "1 \<le> n"
    and cap: "length (InFlightOrchestratorStale s) \<le> 1"
    and running: "\<not> engineLoopDone s"
  shows "(length (InFlightOrchestratorStale s) = 1 \<longrightarrow> MarkInFlightOrchestratorsStale s = s)
       \<and> (\<exists>s1. runEvents (replicate n Call) s = Some s1
                \<and> length (InFlightOrchestratorStale s1) = 1
                \<and> pollCount s1 = pollCount s)
       \<and> (\<exists>s2. runEvents (replicate n Call @ [Loop CaseStale]) s = Some s2
                \<and> pollCount s2 = Suc (pollCount s)
                \<and> InFlightOrchestratorStale s2 = [])
       \<and> runEvents (replicate n Call @ [Loop CaseStale, Loop CaseStale]) s = None
       \<and> (\<forall>es s'. runEvents es s = Some s' \<longrightarrow> length (InFlightOrchestratorStale s') \<le> 1)"
proof -
  let ?s1 = "(MarkInFlightOrchestratorsStale ^^ n) s"
  have l1: "length (InFlightOrchestratorStale ?s1) = 1" using n cap by (rule Mark_pow_queued)
  then obtain x where x: "InFlightOrchestratorStale ?s1 = [x]"
    by (cases "InFlightOrchestratorStale ?s1") auto
  have r1: "\<not> engineLoopDone ?s1" using running by (simp add: Mark_pow_fields)
  let ?s2 = "?s1\<lparr>InFlightOrchestratorStale := [], pollCount := Suc (pollCount ?s1)\<rparr>"
  have it: "engineLoopIteration CaseStale ?s1 = Some ?s2"
    using x r1 by (simp add: engineLoopIteration_def)
  have it2: "engineLoopIteration CaseStale ?s2 = None"
    by (simp add: engineLoopIteration_def)
  have a: "length (InFlightOrchestratorStale s) = 1 \<longrightarrow> MarkInFlightOrchestratorsStale s = s"
    by (simp add: Mark_full)
  have b: "\<exists>s1. runEvents (replicate n Call) s = Some s1
                \<and> length (InFlightOrchestratorStale s1) = 1
                \<and> pollCount s1 = pollCount s"
    using l1 by (simp add: runEvents_calls Mark_pow_fields)
  have c: "\<exists>s2. runEvents (replicate n Call @ [Loop CaseStale]) s = Some s2
                \<and> pollCount s2 = Suc (pollCount s)
                \<and> InFlightOrchestratorStale s2 = []"
    using it by (simp add: runEvents_append runEvents_calls Mark_pow_fields)
  have d: "runEvents (replicate n Call @ [Loop CaseStale, Loop CaseStale]) s = None"
    using it it2 by (simp add: runEvents_append runEvents_calls)
  have e: "\<forall>es s'. runEvents es s = Some s' \<longrightarrow> length (InFlightOrchestratorStale s') \<le> 1"
    using cap runEvents_buffer by blast
  show ?thesis using a b c d e by (intro conjI)
qed

theorem MarkInFlightOrchestratorsStale_counterexample:
  "map_option pollCount (runEvents [Call, Loop CaseStale, Call, Loop CaseStale] idleLoop) = Some 2
   \<and> pollCount idleLoop = 0
   \<and> Tick \<notin> set [Call, Loop CaseStale, Call, Loop CaseStale]
   \<and> Loop CaseTicker \<notin> set [Call, Loop CaseStale, Call, Loop CaseStale]"
  by (simp add: idleLoop_def MarkInFlightOrchestratorsStale_def engineLoopIteration_def)

theorem MarkInFlightOrchestratorsStale_coalesces_witness:
  "(1::nat) \<le> 3
   \<and> length (InFlightOrchestratorStale idleLoop) \<le> 1
   \<and> \<not> engineLoopDone idleLoop
   \<and> (\<exists>s2. runEvents [Call, Call, Call, Loop CaseStale] idleLoop = Some s2
          \<and> pollCount s2 = 1 \<and> InFlightOrchestratorStale s2 = [])
   \<and> runEvents [Call, Call, Call, Loop CaseStale, Loop CaseStale] idleLoop = None"
proof -
  have h: "(1::nat) \<le> 3" "length (InFlightOrchestratorStale idleLoop) \<le> 1"
    "\<not> engineLoopDone idleLoop"
    by (simp_all add: idleLoop_def)
  have r: "replicate 3 Call = [Call, Call, Call]" by (simp add: eval_nat_numeral)
  have p: "pollCount idleLoop = 0" by (simp add: idleLoop_def)
  from MarkInFlightOrchestratorsStale_coalesces [OF h] show ?thesis
    using h unfolding r p by simp
qed

section \<open>Properties of receipt delivery\<close>

subsection \<open>Delivering a receipt batch\<close>

lemma deliverSend_object:
  "subscriptions es subID = Some s \<Longrightarrow>
   subscriptions (deliverSend es subID b rs) subID
     = Some (s\<lparr>ctrlSent := ctrlSent s @ [(b, rs)]\<rparr>)
   \<and> receiptSubs (deliverSend es subID b rs) = receiptSubs es"
  by (simp add: deliverSend_def)

lemma deliverSelect_blocked:
  "subscriptions es subID = Some s \<Longrightarrow>
   deliverSelect p es subID = None \<longleftrightarrow> acksNacks s = [] \<and> \<not> closedChan s"
  by (auto simp: deliverSelect_def split: list.splits)

lemma deliverSelect_nil:
  "subscriptions es subID = Some s \<Longrightarrow>
   (\<exists>es'. deliverSelect p es subID = Some (None, es'))
     \<longleftrightarrow> (\<exists>rest. acksNacks s = RpcAckNack True # rest) \<and> (closedChan s \<longrightarrow> p)"
proof -
  assume o: "subscriptions es subID = Some s"
  show ?thesis
  proof (cases "acksNacks s")
    case Nil
    then show ?thesis using o by (simp add: deliverSelect_def)
  next
    case (Cons a rest)
    obtain b where a: "a = RpcAckNack b" by (cases a)
    show ?thesis using o Cons a by (auto simp: deliverSelect_def)
  qed
qed

lemma deliverSelect_nack:
  "subscriptions es subID = Some s \<Longrightarrow> acksNacks s = RpcAckNack False # rest \<Longrightarrow>
   \<not> closedChan s \<Longrightarrow>
   deliverSelect p es subID
     = Some (Some (MsgTxMgrJSONRPCSubscriptionNack subID),
             es\<lparr>subscriptions := (subscriptions es)(subID \<mapsto> s\<lparr>acksNacks := rest\<rparr>)\<rparr>)"
  by (simp add: deliverSelect_def)

lemma deliverSelect_ack:
  "subscriptions es subID = Some s \<Longrightarrow> acksNacks s = RpcAckNack True # rest \<Longrightarrow>
   \<not> closedChan s \<Longrightarrow>
   deliverSelect p es subID
     = Some (None, es\<lparr>subscriptions := (subscriptions es)(subID \<mapsto> s\<lparr>acksNacks := rest\<rparr>)\<rparr>)"
  by (simp add: deliverSelect_def)

lemma deliverSelect_closed:
  "subscriptions es subID = Some s \<Longrightarrow> acksNacks s = [] \<Longrightarrow> closedChan s \<Longrightarrow>
   deliverSelect p es subID = Some (Some (MsgTxMgrJSONRPCSubscriptionClosed subID), es)"
  by (simp add: deliverSelect_def)

lemma HandleLifecycle_acknack:
  assumes "subscriptions es subID = Some s" "subID \<in> receiptSubs es" "acksNacks s = []"
    and "m = ''ptx_ack'' \<or> m = ''ptx_nack''"
  shows "HandleLifecycle es (lifecycleRequest m subID)
     = (es\<lparr>subscriptions := (subscriptions es)
            (subID \<mapsto> s\<lparr>acksNacks := [RpcAckNack (m = ''ptx_ack'')]\<rparr>)\<rparr>, None)"
  using assms by (auto simp: HandleLifecycle_def lifecycleRequest_def getSubscription_def)

lemma HandleLifecycle_unsubscribe:
  assumes "subscriptions es subID = Some s" "subID \<in> receiptSubs es"
  shows "HandleLifecycle es (lifecycleRequest ''ptx_unsubscribe'' subID)
     = (es\<lparr>receiptSubs := receiptSubs es - {subID},
           subscriptions := (subscriptions es)
            (subID \<mapsto> s\<lparr>rrc := map_option (\<lambda>c. True) (rrc s), ctrlClosed := True,
                           closedChan := True\<rparr>)\<rparr>,
        Some (RPCResult True))"
  using assms
  by (cases s)
     (simp add: HandleLifecycle_def lifecycleRequest_def getSubscription_def
        cleanupSubscription_def cleanupLocked_def)

text \<open>
  Claim C9, as amended. \<^verbatim>\<open>DeliverReceiptBatch\<close> sends the batch and then blocks exactly
  while no ack or nack is queued and the subscription is not closed. It returns nil iff
  it receives an ack. A nack makes it return the nack error and leaves the subscription
  registered and open: neither \<^verbatim>\<open>DeliverReceiptBatch\<close> nor \<^verbatim>\<open>HandleLifecycle\<close> closes
  it. A subscription closed before any ack arrives (by \<^verbatim>\<open>ptx_unsubscribe\<close>) makes it
  return the closed error, with the subscription removed from the map. With no request
  at all the call stays blocked.
\<close>

theorem DeliverReceiptBatch_outcomes:
  assumes obj: "subscriptions es subID = Some s"
  shows "(deliverSelect p es subID = None \<longleftrightarrow> acksNacks s = [] \<and> \<not> closedChan s)
       \<and> ((\<exists>es'. deliverSelect p es subID = Some (None, es'))
            \<longleftrightarrow> (\<exists>rest. acksNacks s = RpcAckNack True # rest) \<and> (closedChan s \<longrightarrow> p))
       \<and> (subID \<in> receiptSubs es \<and> acksNacks s = [] \<and> \<not> closedChan s \<longrightarrow>
            DeliverReceiptBatch p (lifecycleRequest ''ptx_ack'' subID # reqs) es subID b rs
              = Some (None, deliverSend es subID b rs)
            \<and> DeliverReceiptBatch p (lifecycleRequest ''ptx_nack'' subID # reqs) es subID b rs
              = Some (Some (MsgTxMgrJSONRPCSubscriptionNack subID), deliverSend es subID b rs)
            \<and> subID \<in> receiptSubs (deliverSend es subID b rs)
            \<and> subscriptions (deliverSend es subID b rs) subID
                = Some (s\<lparr>ctrlSent := ctrlSent s @ [(b, rs)]\<rparr>)
            \<and> (\<exists>es'. DeliverReceiptBatch p (lifecycleRequest ''ptx_unsubscribe'' subID # reqs)
                        es subID b rs
                      = Some (Some (MsgTxMgrJSONRPCSubscriptionClosed subID), es')
                    \<and> subID \<notin> receiptSubs es'
                    \<and> subscriptions es' subID
                        = Some (s\<lparr>rrc := map_option (\<lambda>c. True) (rrc s),
                                   ctrlSent := ctrlSent s @ [(b, rs)],
                                   ctrlClosed := True, closedChan := True\<rparr>))
            \<and> DeliverReceiptBatch p [] es subID b rs = None)"
proof (intro conjI impI)
  show "deliverSelect p es subID = None \<longleftrightarrow> acksNacks s = [] \<and> \<not> closedChan s"
    using obj by (rule deliverSelect_blocked)
  show "(\<exists>es'. deliverSelect p es subID = Some (None, es'))
            \<longleftrightarrow> (\<exists>rest. acksNacks s = RpcAckNack True # rest) \<and> (closedChan s \<longrightarrow> p)"
    using obj by (rule deliverSelect_nil)
next
  assume a: "subID \<in> receiptSubs es \<and> acksNacks s = [] \<and> \<not> closedChan s"
  let ?es = "deliverSend es subID b rs"
  let ?s = "s\<lparr>ctrlSent := ctrlSent s @ [(b, rs)]\<rparr>"
  have o: "subscriptions ?es subID = Some ?s" and reg: "subID \<in> receiptSubs ?es"
    using deliverSend_object [OF obj] a by simp_all
  have e: "acksNacks ?s = []" "\<not> closedChan ?s" using a by simp_all
  have blocked: "deliverSelect p ?es subID = None"
    using deliverSelect_blocked [OF o] e by simp
  have same: "?es\<lparr>subscriptions := (subscriptions ?es)(subID \<mapsto> ?s)\<rparr> = ?es"
    using o by (simp add: fun_upd_idem)
  have empty: "?s\<lparr>acksNacks := []\<rparr> = ?s" using a by (cases s) simp
  show "DeliverReceiptBatch p (lifecycleRequest ''ptx_ack'' subID # reqs) es subID b rs
              = Some (None, ?es)"
  proof -
    let ?s1 = "?s\<lparr>acksNacks := [RpcAckNack True]\<rparr>"
    let ?es1 = "?es\<lparr>subscriptions := (subscriptions ?es)(subID \<mapsto> ?s1)\<rparr>"
    have h: "HandleLifecycle ?es (lifecycleRequest ''ptx_ack'' subID) = (?es1, None)"
      using HandleLifecycle_acknack [OF o reg e(1), of "''ptx_ack''"] by simp
    have "deliverSelect p ?es1 subID
            = Some (None, ?es1\<lparr>subscriptions := (subscriptions ?es1)(subID \<mapsto> ?s1\<lparr>acksNacks := []\<rparr>)\<rparr>)"
      using a by (intro deliverSelect_ack) simp_all
    moreover have "?s1\<lparr>acksNacks := []\<rparr> = ?s" using empty by simp
    then have "?es1\<lparr>subscriptions := (subscriptions ?es1)(subID \<mapsto> ?s1\<lparr>acksNacks := []\<rparr>)\<rparr> = ?es"
      using same by simp
    ultimately show ?thesis
      using blocked h by (cases reqs) (simp_all add: DeliverReceiptBatch_def)
  qed
  show "DeliverReceiptBatch p (lifecycleRequest ''ptx_nack'' subID # reqs) es subID b rs
              = Some (Some (MsgTxMgrJSONRPCSubscriptionNack subID), ?es)"
  proof -
    let ?s1 = "?s\<lparr>acksNacks := [RpcAckNack False]\<rparr>"
    let ?es1 = "?es\<lparr>subscriptions := (subscriptions ?es)(subID \<mapsto> ?s1)\<rparr>"
    have h: "HandleLifecycle ?es (lifecycleRequest ''ptx_nack'' subID) = (?es1, None)"
      using HandleLifecycle_acknack [OF o reg e(1), of "''ptx_nack''"] by simp
    have "deliverSelect p ?es1 subID
            = Some (Some (MsgTxMgrJSONRPCSubscriptionNack subID),
                    ?es1\<lparr>subscriptions := (subscriptions ?es1)(subID \<mapsto> ?s1\<lparr>acksNacks := []\<rparr>)\<rparr>)"
      using a by (intro deliverSelect_nack) simp_all
    moreover have "?s1\<lparr>acksNacks := []\<rparr> = ?s" using empty by simp
    then have "?es1\<lparr>subscriptions := (subscriptions ?es1)(subID \<mapsto> ?s1\<lparr>acksNacks := []\<rparr>)\<rparr> = ?es"
      using same by simp
    ultimately show ?thesis
      using blocked h by (cases reqs) (simp_all add: DeliverReceiptBatch_def)
  qed
  show "subID \<in> receiptSubs ?es" by (rule reg)
  show "subscriptions ?es subID = Some ?s" by (rule o)
  show "\<exists>es'. DeliverReceiptBatch p (lifecycleRequest ''ptx_unsubscribe'' subID # reqs)
                        es subID b rs
                      = Some (Some (MsgTxMgrJSONRPCSubscriptionClosed subID), es')
                    \<and> subID \<notin> receiptSubs es'
                    \<and> subscriptions es' subID
                        = Some (s\<lparr>rrc := map_option (\<lambda>c. True) (rrc s),
                                   ctrlSent := ctrlSent s @ [(b, rs)],
                                   ctrlClosed := True, closedChan := True\<rparr>)"
  proof -
    let ?s2 = "?s\<lparr>rrc := map_option (\<lambda>c. True) (rrc ?s), ctrlClosed := True, closedChan := True\<rparr>"
    let ?es2 = "?es\<lparr>receiptSubs := receiptSubs ?es - {subID},
                    subscriptions := (subscriptions ?es)(subID \<mapsto> ?s2)\<rparr>"
    have h: "HandleLifecycle ?es (lifecycleRequest ''ptx_unsubscribe'' subID)
               = (?es2, Some (RPCResult True))"
      using HandleLifecycle_unsubscribe [OF o reg] .
    have "deliverSelect p ?es2 subID = Some (Some (MsgTxMgrJSONRPCSubscriptionClosed subID), ?es2)"
      using a by (intro deliverSelect_closed [where s = ?s2]) simp_all
    then have "DeliverReceiptBatch p (lifecycleRequest ''ptx_unsubscribe'' subID # reqs) es subID b rs
                 = Some (Some (MsgTxMgrJSONRPCSubscriptionClosed subID), ?es2)"
      using blocked h by (cases reqs) (simp_all add: DeliverReceiptBatch_def)
    moreover have "subID \<notin> receiptSubs ?es2" by simp
    moreover have "subscriptions ?es2 subID
                        = Some (s\<lparr>rrc := map_option (\<lambda>c. True) (rrc s),
                                   ctrlSent := ctrlSent s @ [(b, rs)],
                                   ctrlClosed := True, closedChan := True\<rparr>)"
      by simp
    ultimately show ?thesis by blast
  qed
  show "DeliverReceiptBatch p [] es subID b rs = None"
    using blocked by (simp add: DeliverReceiptBatch_def)
qed

theorem DeliverReceiptBatch_nack_counterexample:
  "DeliverReceiptBatch True [lifecycleRequest ''ptx_nack'' ''sub1''] sampleStreams ''sub1'' 7 [''r1'']
     = Some (Some (MsgTxMgrJSONRPCSubscriptionNack ''sub1''), sampleStreamsSent)
   \<and> ''sub1'' \<in> receiptSubs sampleStreamsSent
   \<and> map_option closedChan (subscriptions sampleStreamsSent ''sub1'') = Some False"
  by (simp add: DeliverReceiptBatch_def deliverSend_def deliverSelect_def HandleLifecycle_def
        getSubscription_def lifecycleRequest_def sampleStreams_def sampleStreamsSent_def
        sampleSub_def)

theorem DeliverReceiptBatch_outcomes_witness:
  "subscriptions sampleStreams ''sub1'' = Some sampleSub
   \<and> ''sub1'' \<in> receiptSubs sampleStreams \<and> acksNacks sampleSub = [] \<and> \<not> closedChan sampleSub
   \<and> DeliverReceiptBatch True [lifecycleRequest ''ptx_ack'' ''sub1''] sampleStreams ''sub1'' 7 [''r1'']
       = Some (None, deliverSend sampleStreams ''sub1'' 7 [''r1''])
   \<and> (\<exists>es'. DeliverReceiptBatch True [lifecycleRequest ''ptx_unsubscribe'' ''sub1'']
                 sampleStreams ''sub1'' 7 [''r1'']
               = Some (Some (MsgTxMgrJSONRPCSubscriptionClosed ''sub1''), es')
             \<and> ''sub1'' \<notin> receiptSubs es')
   \<and> DeliverReceiptBatch True [] sampleStreams ''sub1'' 7 [''r1''] = None"
proof -
  have o: "subscriptions sampleStreams ''sub1'' = Some sampleSub"
    by (simp add: sampleStreams_def)
  have h: "''sub1'' \<in> receiptSubs sampleStreams \<and> acksNacks sampleSub = [] \<and> \<not> closedChan sampleSub"
    by (simp add: sampleStreams_def sampleSub_def)
  from DeliverReceiptBatch_outcomes [OF o, of True "[]" 7 "[''r1'']"] h o
  show ?thesis by blast
qed

section \<open>Properties of the default configuration\<close>

lemma parseDuration_samples:
  "parseDuration ''5s'' = Some 5000"
  "parseDuration ''1m'' = Some 60000"
  "parseDuration ''10s'' = Some 10000"
  "parseDuration ''10m'' = Some 600000"
  "parseDuration ''250ms'' = Some 250"
  "parseDuration ''30s'' = Some 30000"
  by (simp_all add: parseDuration_def digitValue_def unitMillis_def)

text \<open>
  Claim C8. The defaults \<^verbatim>\<open>DefaultTransactionEngineConfig\<close> carries: 50 orchestrators,
  interval 5 s, maximum stale time 1 min, maximum idle time 10 s, retry from 250 ms by
  factor 2 up to 30 s, a cache capacity of 1000, each equal to the constant of the same
  name where there is one. \<^verbatim>\<open>MaxOverloadProcessTime\<close> is the exception: the constant
  \<^verbatim>\<open>defaultMaxOverloadProcessTime\<close> is 10 min, and the field of the default
  configuration is unset.
\<close>

theorem DefaultTransactionEngineConfig_fields:
  "MaxInFlightOrchestrators DefaultTransactionEngineConfig = Some 50
   \<and> Option.bind (Interval DefaultTransactionEngineConfig) parseDuration = Some 5000
   \<and> Option.bind (MaxStaleTime DefaultTransactionEngineConfig) parseDuration = Some 60000
   \<and> Option.bind (MaxIdleTime DefaultTransactionEngineConfig) parseDuration = Some 10000
   \<and> MaxOverloadProcessTime DefaultTransactionEngineConfig = None
   \<and> parseDuration defaultMaxOverloadProcessTime = Some 600000
   \<and> Option.bind (InitialDelay (Retry DefaultTransactionEngineConfig)) parseDuration = Some 250
   \<and> Option.bind (MaxDelay (Retry DefaultTransactionEngineConfig)) parseDuration = Some 30000
   \<and> Factor (Retry DefaultTransactionEngineConfig) = Some 2
   \<and> Capacity (TransactionCache DefaultTransactionEngineConfig) = Some 1000
   \<and> MaxInFlightOrchestrators DefaultTransactionEngineConfig
        = Some defaultTransactionEngineMaxInFlightOrchestrators
   \<and> Interval DefaultTransactionEngineConfig = Some defaultTransactionEngineInterval
   \<and> MaxStaleTime DefaultTransactionEngineConfig = Some defaultTransactionEngineMaxStale
   \<and> MaxIdleTime DefaultTransactionEngineConfig = Some defaultTransactionEngineMaxIdle
   \<and> InitialDelay (Retry DefaultTransactionEngineConfig)
        = Some defaultTransactionEngineRetryInitDelay
   \<and> MaxDelay (Retry DefaultTransactionEngineConfig) = Some defaultTransactionEngineRetryMaxDelay
   \<and> Factor (Retry DefaultTransactionEngineConfig) = Some defaultTransactionEngineRetryFactor"
  by (simp add: DefaultTransactionEngineConfig_def parseDuration_samples
        defaultMaxOverloadProcessTime_def defaultTransactionEngineMaxInFlightOrchestrators_def
        defaultTransactionEngineInterval_def defaultTransactionEngineMaxStale_def
        defaultTransactionEngineMaxIdle_def defaultTransactionEngineRetryInitDelay_def
        defaultTransactionEngineRetryMaxDelay_def defaultTransactionEngineRetryFactor_def)

end
